theory Spec2Isabelle
  imports Complex_Main "HOL-Library.Char_ord" "HOL-Library.List_Lexorder"
begin

section \<open>The gravlax scanner\<close>

text \<open>
  A shallow embedding of the scanner of \<^verbatim>\<open>gravlax\<close> (its latest revision, the one with
  number and identifier lexing) and of its command-line driver. JavaScript strings are
  modelled as \<^typ>\<open>string\<close>: the source text is a list of 8-bit characters, and the
  one-character strings that \<^verbatim>\<open>charAt\<close> returns are lists of length at most one, compared
  the way JavaScript compares strings (lexicographically, code unit by code unit).
\<close>

subsection \<open>Tokens\<close>

datatype TokenType =
    LEFT_PAREN | RIGHT_PAREN | LEFT_BRACE | RIGHT_BRACE
  | COMMA | DOT | MINUS | PLUS | SEMICOLON | SLASH | STAR
  | BANG | BANG_EQUAL | EQUAL | EQUAL_EQUAL
  | GREATER | GREATER_EQUAL | LESS | LESS_EQUAL
  | IDENTIFIER | STRING | NUMBER
  | AND | CLASS | ELSE | FALSE | FUN | FOR | IF | NIL | OR
  | PRINT | RETURN | SUPER | THIS | TRUE | VAR | WHILE
  | EOF

text \<open>
  The value stored in a token's \<^verbatim>\<open>type\<close> field. The field is declared as a
  \<^verbatim>\<open>TokenType\<close>, but \<^verbatim>\<open>identifier\<close> stores whatever the property lookup
  \<^verbatim>\<open>keywords[text]\<close> returns unless that is \<^verbatim>\<open>undefined\<close>; \<^verbatim>\<open>keywords\<close> is an
  object literal, so the lookup also finds the properties it inherits from
  \<^verbatim>\<open>Object.prototype\<close>. \<open>ObjectPrototype name\<close> stands for the inherited member of that
  name.
\<close>

datatype type_value = TT TokenType | ObjectPrototype string

text \<open>
  The numbers \<^verbatim>\<open>Number.parseFloat\<close> can return: a finite binary64 value (kept as the
  rational it denotes), infinity, or NaN.
\<close>

datatype js_number = Finite rat | PosInfinity | NaN

text \<open>
  The \<^verbatim>\<open>literal\<close> field: the empty object \<^verbatim>\<open>{}\<close> when \<^verbatim>\<open>addToken\<close> gets no second
  argument, the string value of a STRING token, the number of a NUMBER token.
\<close>

datatype literal = EmptyObject | Str string | Num js_number

record Token =
  type :: type_value
  lexeme :: string
  literal :: literal
  line :: nat

subsection \<open>Scanner state\<close>

text \<open>
  One entry of the error stream: the arguments of \<^verbatim>\<open>report\<close>, which prints
  \<^verbatim>\<open>[line L] Error W : M\<close> with \<^verbatim>\<open>console.error\<close>.
\<close>

record diagnostic =
  at_line :: nat
  location :: string
  message :: string

text \<open>
  The state a scan works on: the \<^verbatim>\<open>Scanner\<close> object (\<open>source\<close>, \<open>tokens\<close>), the local
  variables \<^verbatim>\<open>start\<close>, \<^verbatim>\<open>current\<close> and \<^verbatim>\<open>line\<close> of \<^verbatim>\<open>scanTokens\<close> (the last one is
  \<open>lineno\<close> here, since \<open>line\<close> is the token's field), the global flag
  \<^verbatim>\<open>had_error\<close>, and the lines written with \<^verbatim>\<open>console.error\<close>.
\<close>

record scan_state =
  source :: string
  tokens :: "Token list"
  start :: nat
  current :: nat
  lineno :: nat
  had_error :: bool
  console_error :: "diagnostic list"

subsection \<open>String primitives of the host language\<close>

definition charAt :: "string \<Rightarrow> nat \<Rightarrow> string" where
  "charAt s i = (if i < length s then [s ! i] else [])"

text \<open>\<^verbatim>\<open>substring(a, b)\<close> clamps both indices to the length and swaps them when \<open>a > b\<close>.\<close>

definition substring :: "string \<Rightarrow> nat \<Rightarrow> nat \<Rightarrow> string" where
  "substring s a b =
     (let a' = min a (length s); b' = min b (length s)
      in take (max a' b' - min a' b') (drop (min a' b') s))"

subsection \<open>\<^verbatim>\<open>Number.parseFloat\<close> on the scanner's number lexemes\<close>

text \<open>
  \<^verbatim>\<open>number\<close> passes \<^verbatim>\<open>parseFloat\<close> a run of decimal digits, optionally followed by a dot
  and more digits. On such a string the result is the binary64 value nearest to the
  decimal value (ties to the even significand), infinity when that rounds beyond the
  largest finite double. The model reads that shape as a prefix of the argument (no sign,
  no exponent, no leading white space) and returns NaN when the string starts with no digit.
\<close>

definition is_decimal_digit :: "char \<Rightarrow> bool" where
  "is_decimal_digit c = (CHR ''0'' \<le> c \<and> c \<le> CHR ''9'')"

definition digit_value :: "char \<Rightarrow> nat" where
  "digit_value c = of_char c - 48"

definition digits_value :: "string \<Rightarrow> nat" where
  "digits_value ds = foldl (\<lambda>n c. 10 * n + digit_value c) 0 ds"

fun floor_log2 :: "nat \<Rightarrow> nat" where
  "floor_log2 n = (if n < 2 then 0 else Suc (floor_log2 (n div 2)))"

declare floor_log2.simps [simp del]

definition pow2 :: "int \<Rightarrow> rat" where
  "pow2 e = (if 0 \<le> e then 2 ^ nat e else 1 / 2 ^ nat (- e))"

text \<open>The exponent \<open>e\<close> with \<open>2 ^ e \<le> a / b < 2 ^ (e + 1)\<close>, for positive \<open>a\<close> and \<open>b\<close>.\<close>

definition binade :: "nat \<Rightarrow> nat \<Rightarrow> int" where
  "binade a b =
     (let d = int (floor_log2 a) - int (floor_log2 b)
      in if pow2 d \<le> of_nat a / of_nat b then d else d - 1)"

definition round_half_even :: "rat \<Rightarrow> int" where
  "round_half_even q =
     (let f = \<lfloor>q\<rfloor>; r = q - of_int f
      in if r < 1 / 2 then f
         else if 1 / 2 < r then f + 1
         else if even f then f else f + 1)"

text \<open>Round \<open>a / b\<close> to binary64: 53 bits of significand, exponents from -1022 to 1023.\<close>

definition to_binary64 :: "nat \<Rightarrow> nat \<Rightarrow> js_number" where
  "to_binary64 a b =
     (if a = 0 then Finite 0
      else let e = max (binade a b) (- 1022);
               ulp = pow2 (e - 52);
               v = of_int (round_half_even (of_nat a / of_nat b / ulp)) * ulp
           in if pow2 1024 \<le> v then PosInfinity else Finite v)"

definition parseFloat :: "string \<Rightarrow> js_number" where
  "parseFloat s =
     (let ip = takeWhile is_decimal_digit s;
          r = dropWhile is_decimal_digit s;
          fp = (case r of [] \<Rightarrow> [] | c # r' \<Rightarrow>
                  if c = CHR ''.'' then takeWhile is_decimal_digit r' else [])
      in if ip = [] then NaN
         else to_binary64 (digits_value (ip @ fp)) (10 ^ length fp))"

subsection \<open>The keyword table\<close>

text \<open>The own properties of the object literal \<^verbatim>\<open>keywords\<close>.\<close>

definition keywords_own :: "(string \<times> TokenType) list" where
  "keywords_own =
     [(''and'', AND), (''class'', CLASS), (''else'', ELSE), (''false'', FALSE),
      (''for'', FOR), (''fun'', FUN), (''if'', IF), (''nil'', NIL), (''or'', OR),
      (''print'', PRINT), (''return'', RETURN), (''super'', SUPER), (''this'', THIS),
      (''true'', TRUE), (''var'', VAR), (''while'', WHILE)]"

text \<open>
  The string-keyed properties of \<^verbatim>\<open>Object.prototype\<close>, which every object literal
  inherits (ECMAScript, sections 20.1.3 and B.2.2).
\<close>

definition object_prototype_names :: "string list" where
  "object_prototype_names =
     [''constructor'', ''hasOwnProperty'', ''isPrototypeOf'', ''propertyIsEnumerable'',
      ''toLocaleString'', ''toString'', ''valueOf'', ''__proto__'',
      ''__defineGetter__'', ''__defineSetter__'', ''__lookupGetter__'',
      ''__lookupSetter__'']"

text \<open>
  The property read \<^verbatim>\<open>keywords[text]\<close>: an own property first, then the prototype;
  \<open>None\<close> is \<^verbatim>\<open>undefined\<close>.
\<close>

definition keywords_at :: "string \<Rightarrow> type_value option" where
  "keywords_at text =
     (case map_of keywords_own text of
        Some k \<Rightarrow> Some (TT k)
      | None \<Rightarrow> if text \<in> set object_prototype_names
                then Some (ObjectPrototype text) else None)"

subsection \<open>Error reporting\<close>

definition report :: "nat \<Rightarrow> string \<Rightarrow> string \<Rightarrow> scan_state \<Rightarrow> scan_state" where
  "report l w m st =
     st\<lparr>console_error := console_error st @ [\<lparr>at_line = l, location = w, message = m\<rparr>],
        had_error := True\<rparr>"

definition error :: "nat \<Rightarrow> string \<Rightarrow> scan_state \<Rightarrow> scan_state" where
  "error l m st = report l [] m st"

subsection \<open>The helpers of \<^verbatim>\<open>scanTokens\<close>\<close>

definition isAtEnd :: "scan_state \<Rightarrow> bool" where
  "isAtEnd st = (length (source st) \<le> current st)"

text \<open>\<^verbatim>\<open>advance\<close> returns the character read and increments \<open>current\<close>.\<close>

definition advance :: "scan_state \<Rightarrow> string \<times> scan_state" where
  "advance st = (charAt (source st) (current st), st\<lparr>current := current st + 1\<rparr>)"

definition addToken :: "type_value \<Rightarrow> literal option \<Rightarrow> scan_state \<Rightarrow> scan_state" where
  "addToken t l st =
     (let text = substring (source st) (start st) (current st)
      in st\<lparr>tokens := tokens st @
               [\<lparr>type = t, lexeme = text,
                 literal = (case l of None \<Rightarrow> EmptyObject | Some v \<Rightarrow> v),
                 line = lineno st\<rparr>]\<rparr>)"

definition match :: "string \<Rightarrow> scan_state \<Rightarrow> bool \<times> scan_state" where
  "match expected st =
     (if isAtEnd st then (False, st)
      else if charAt (source st) (current st) \<noteq> expected then (False, st)
      else (True, st\<lparr>current := current st + 1\<rparr>))"

definition peek :: "scan_state \<Rightarrow> string" where
  "peek st = (if isAtEnd st then [CHR 0x00] else charAt (source st) (current st))"

definition peekNext :: "scan_state \<Rightarrow> string" where
  "peekNext st =
     (if length (source st) \<le> current st + 1 then [CHR 0x00]
      else charAt (source st) (current st + 1))"

definition isDigit :: "string \<Rightarrow> bool" where
  "isDigit c = (''0'' \<le> c \<and> c \<le> ''9'')"

definition isAlpha :: "string \<Rightarrow> bool" where
  "isAlpha c = ((''a'' \<le> c \<and> c \<le> ''z'') \<or> (''A'' \<le> c \<and> c \<le> ''Z'') \<or> c = ''_'')"

definition isAlphaNumeric :: "string \<Rightarrow> bool" where
  "isAlphaNumeric c = (isAlpha c \<or> isDigit c)"

lemma isDigit_peek_not_at_end: "isDigit (peek st) \<Longrightarrow> \<not> isAtEnd st"
  by (auto simp: isDigit_def peek_def)

lemma isAlphaNumeric_peek_not_at_end: "isAlphaNumeric (peek st) \<Longrightarrow> \<not> isAtEnd st"
  by (auto simp: isAlphaNumeric_def isAlpha_def isDigit_def peek_def)

subsection \<open>The inner loops\<close>

text \<open>
  Each \<^verbatim>\<open>while\<close> loop of the source is a recursive function on the state; the distance
  from \<open>current\<close> to the end of the source decreases with every iteration.
\<close>

text \<open>\<^verbatim>\<open>while (peek() != '"' && !isAtEnd()) { if (peek() == "\n") line += 1; advance(); }\<close>\<close>

function string_loop :: "scan_state \<Rightarrow> scan_state" where
  "string_loop st =
     (if peek st \<noteq> [CHR 0x22] \<and> \<not> isAtEnd st
      then string_loop
             (snd (advance (if peek st = [CHR 0x0A] then st\<lparr>lineno := lineno st + 1\<rparr> else st)))
      else st)"
  by pat_completeness auto
termination
  by (relation "measure (\<lambda>st. length (source st) - current st)")
     (auto simp: advance_def isAtEnd_def)

text \<open>\<^verbatim>\<open>while (isDigit(peek())) advance();\<close>\<close>

function digits_loop :: "scan_state \<Rightarrow> scan_state" where
  "digits_loop st = (if isDigit (peek st) then digits_loop (snd (advance st)) else st)"
  by pat_completeness auto
termination
  by (relation "measure (\<lambda>st. length (source st) - current st)")
     (auto simp: advance_def isAtEnd_def dest: isDigit_peek_not_at_end)

text \<open>\<^verbatim>\<open>while (isAlphaNumeric(peek())) advance();\<close>\<close>

function identifier_loop :: "scan_state \<Rightarrow> scan_state" where
  "identifier_loop st =
     (if isAlphaNumeric (peek st) then identifier_loop (snd (advance st)) else st)"
  by pat_completeness auto
termination
  by (relation "measure (\<lambda>st. length (source st) - current st)")
     (auto simp: advance_def isAtEnd_def dest: isAlphaNumeric_peek_not_at_end)

text \<open>\<^verbatim>\<open>while (peek() != "\n" && !isAtEnd()) { advance(); }\<close>\<close>

function comment_loop :: "scan_state \<Rightarrow> scan_state" where
  "comment_loop st =
     (if peek st \<noteq> [CHR 0x0A] \<and> \<not> isAtEnd st then comment_loop (snd (advance st)) else st)"
  by pat_completeness auto
termination
  by (relation "measure (\<lambda>st. length (source st) - current st)")
     (auto simp: advance_def isAtEnd_def)

declare string_loop.simps [simp del] digits_loop.simps [simp del]
  identifier_loop.simps [simp del] comment_loop.simps [simp del]

subsection \<open>The inner loops in closed form\<close>

text \<open>
  The unread input. Each inner loop skips the longest prefix of it whose characters pass
  the loop's test.
\<close>
definition rest :: "scan_state \<Rightarrow> string" where
  "rest st = drop (current st) (source st)"

lemma isAtEnd_rest: "isAtEnd st \<longleftrightarrow> rest st = []"
  by (simp add: isAtEnd_def rest_def)

lemma peek_rest: "peek st = (case rest st of [] \<Rightarrow> [CHR 0x00] | c # r \<Rightarrow> [c])"
  by (auto simp: peek_def isAtEnd_def rest_def charAt_def hd_drop_conv_nth split: list.splits
          dest: arg_cong[where f=hd])

lemma rest_advance: "rest (snd (advance st)) = tl (rest st)"
  by (simp add: advance_def rest_def drop_Suc tl_drop)

lemma rest_update [simp]:
  "rest (st\<lparr>lineno := l\<rparr>) = rest st" "rest (st\<lparr>start := s\<rparr>) = rest st"
  "rest (st\<lparr>tokens := ts\<rparr>) = rest st" "rest (st\<lparr>had_error := h\<rparr>) = rest st"
  "rest (st\<lparr>console_error := ce\<rparr>) = rest st"
  by (simp_all add: rest_def)

lemma digits_loop_closed:
  "digits_loop st = st\<lparr>current := current st + length (takeWhile (\<lambda>c. isDigit [c]) (rest st))\<rparr>"
proof (induction st rule: digits_loop.induct)
  case (1 st)
  show ?case
  proof (cases "isDigit (peek st)")
    case True
    then obtain c r where r: "rest st = c # r" "isDigit [c]"
      by (auto simp: peek_rest isDigit_def split: list.splits)
    have "digits_loop st = digits_loop (snd (advance st))"
      using True by (subst digits_loop.simps) simp
    also have "\<dots> = (snd (advance st))\<lparr>current := current (snd (advance st)) +
        length (takeWhile (\<lambda>c. isDigit [c]) (rest (snd (advance st))))\<rparr>"
      using 1 True by simp
    finally show ?thesis using r by (simp add: rest_advance) (simp add: advance_def)
  next
    case False
    then have "takeWhile (\<lambda>c. isDigit [c]) (rest st) = []"
      by (auto simp: peek_rest split: list.splits)
    with False show ?thesis by (subst digits_loop.simps) simp
  qed
qed

lemma identifier_loop_closed:
  "identifier_loop st =
     st\<lparr>current := current st + length (takeWhile (\<lambda>c. isAlphaNumeric [c]) (rest st))\<rparr>"
proof (induction st rule: identifier_loop.induct)
  case (1 st)
  show ?case
  proof (cases "isAlphaNumeric (peek st)")
    case True
    then obtain c r where r: "rest st = c # r" "isAlphaNumeric [c]"
      by (auto simp: peek_rest isAlphaNumeric_def isAlpha_def isDigit_def split: list.splits)
    have "identifier_loop st = identifier_loop (snd (advance st))"
      using True by (subst identifier_loop.simps) simp
    also have "\<dots> = (snd (advance st))\<lparr>current := current (snd (advance st)) +
        length (takeWhile (\<lambda>c. isAlphaNumeric [c]) (rest (snd (advance st))))\<rparr>"
      using 1 True by simp
    finally show ?thesis using r by (simp add: rest_advance) (simp add: advance_def)
  next
    case False
    then have "takeWhile (\<lambda>c. isAlphaNumeric [c]) (rest st) = []"
      by (auto simp: peek_rest split: list.splits)
    with False show ?thesis by (subst identifier_loop.simps) simp
  qed
qed

lemma comment_loop_closed:
  "comment_loop st =
     st\<lparr>current := current st + length (takeWhile (\<lambda>c. c \<noteq> CHR 0x0A) (rest st))\<rparr>"
proof (induction st rule: comment_loop.induct)
  case (1 st)
  show ?case
  proof (cases "peek st \<noteq> [CHR 0x0A] \<and> \<not> isAtEnd st")
    case True
    then obtain c r where r: "rest st = c # r" "c \<noteq> CHR 0x0A"
      by (auto simp: peek_rest isAtEnd_rest split: list.splits)
    have "comment_loop st = comment_loop (snd (advance st))"
      using True by (subst comment_loop.simps) simp
    also have "\<dots> = (snd (advance st))\<lparr>current := current (snd (advance st)) +
        length (takeWhile (\<lambda>c. c \<noteq> CHR 0x0A) (rest (snd (advance st))))\<rparr>"
      using 1 True by simp
    finally show ?thesis using r by (simp add: rest_advance) (simp add: advance_def)
  next
    case False
    then have "takeWhile (\<lambda>c. c \<noteq> CHR 0x0A) (rest st) = []"
      by (auto simp: peek_rest isAtEnd_rest split: list.splits)
    with False show ?thesis by (subst comment_loop.simps) auto
  qed
qed

lemma string_loop_closed:
  "string_loop st =
     st\<lparr>current := current st + length (takeWhile (\<lambda>c. c \<noteq> CHR 0x22) (rest st)),
        lineno := lineno st +
          length (filter (\<lambda>c. c = CHR 0x0A) (takeWhile (\<lambda>c. c \<noteq> CHR 0x22) (rest st)))\<rparr>"
proof (induction st rule: string_loop.induct)
  case (1 st)
  show ?case
  proof (cases "peek st \<noteq> [CHR 0x22] \<and> \<not> isAtEnd st")
    case True
    then obtain c r where r: "rest st = c # r" "c \<noteq> CHR 0x22"
      by (auto simp: peek_rest isAtEnd_rest split: list.splits)
    define st1 where "st1 = snd (advance (if peek st = [CHR 0x0A] then st\<lparr>lineno := lineno st + 1\<rparr> else st))"
    have "string_loop st = string_loop st1"
      using True unfolding st1_def by (subst string_loop.simps) simp
    also have "\<dots> = st1\<lparr>current := current st1 + length (takeWhile (\<lambda>c. c \<noteq> CHR 0x22) (rest st1)),
        lineno := lineno st1 +
          length (filter (\<lambda>c. c = CHR 0x0A) (takeWhile (\<lambda>c. c \<noteq> CHR 0x22) (rest st1)))\<rparr>"
      using 1 True unfolding st1_def by simp
    finally show ?thesis using r
      by (simp add: st1_def rest_advance peek_rest) (simp add: advance_def)
  next
    case False
    then have "takeWhile (\<lambda>c. c \<noteq> CHR 0x22) (rest st) = []"
      by (auto simp: peek_rest isAtEnd_rest split: list.splits)
    with False show ?thesis by (subst string_loop.simps) auto
  qed
qed

subsection \<open>Lexing one token\<close>

definition string :: "scan_state \<Rightarrow> scan_state" where
  "string st =
     (let st1 = string_loop st
      in if isAtEnd st1 then error (lineno st1) ''Unterminated string.'' st1
         else let st2 = snd (advance st1);
                  v = substring (source st2) (start st2 + 1) (current st2 - 1)
              in addToken (TT STRING) (Some (Str v)) st2)"

definition number :: "scan_state \<Rightarrow> scan_state" where
  "number st =
     (let st1 = digits_loop st;
          st2 = (if peek st1 = ''.'' \<and> isDigit (peekNext st1)
                 then digits_loop (snd (advance st1)) else st1)
      in addToken (TT NUMBER)
           (Some (Num (parseFloat (substring (source st2) (start st2) (current st2))))) st2)"

definition identifier' :: "scan_state \<Rightarrow> scan_state" where
  "identifier' st =
     (let st1 = identifier_loop st;
          text = substring (source st1) (start st1) (current st1);
          ty = (case keywords_at text of None \<Rightarrow> TT IDENTIFIER | Some t \<Rightarrow> t)
      in addToken ty None st1)"

text \<open>\<^verbatim>\<open>addToken(match("=") ? A : B)\<close>, for the one-or-two-character operators.\<close>

definition operator :: "TokenType \<Rightarrow> TokenType \<Rightarrow> scan_state \<Rightarrow> scan_state" where
  "operator two one st =
     (case match ''='' st of (m, st') \<Rightarrow> addToken (TT (if m then two else one)) None st')"

definition scanToken :: "scan_state \<Rightarrow> scan_state" where
  "scanToken st0 =
     (case advance st0 of (c, st) \<Rightarrow>
        if c = ''('' then addToken (TT LEFT_PAREN) None st
        else if c = '')'' then addToken (TT RIGHT_PAREN) None st
        else if c = ''{'' then addToken (TT LEFT_BRACE) None st
        else if c = ''}'' then addToken (TT RIGHT_BRACE) None st
        else if c = '','' then addToken (TT COMMA) None st
        else if c = ''.'' then addToken (TT DOT) None st
        else if c = ''-'' then addToken (TT MINUS) None st
        else if c = ''+'' then addToken (TT PLUS) None st
        else if c = '';'' then addToken (TT SEMICOLON) None st
        else if c = ''*'' then addToken (TT STAR) None st
        else if c = ''!'' then operator BANG_EQUAL BANG st
        else if c = ''='' then operator EQUAL_EQUAL EQUAL st
        else if c = ''<'' then operator LESS_EQUAL LESS st
        else if c = ''>'' then operator GREATER_EQUAL GREATER st
        else if c = ''/'' then
          (case match ''/'' st of (m, st') \<Rightarrow>
             if m then comment_loop st' else addToken (TT SLASH) None st')
        else if c = '' '' \<or> c = [CHR 0x0D] \<or> c = [CHR 0x09] then st
        else if c = [CHR 0x0A] then st\<lparr>lineno := lineno st + 1\<rparr>
        else if c = [CHR 0x22] then string st
        else if isDigit c then number st
        else if isAlpha c then identifier' st
        else error (lineno st) ''Unexpected character.'' st)"

subsection \<open>What one call of \<^verbatim>\<open>scanToken\<close> leaves alone\<close>

lemma addToken_fields [simp]:
  "source (addToken t l st) = source st" "start (addToken t l st) = start st"
  "current (addToken t l st) = current st" "lineno (addToken t l st) = lineno st"
  "had_error (addToken t l st) = had_error st"
  "console_error (addToken t l st) = console_error st"
  by (simp_all add: addToken_def Let_def)

lemma error_fields [simp]:
  "source (error l m st) = source st" "start (error l m st) = start st"
  "current (error l m st) = current st" "lineno (error l m st) = lineno st"
  "tokens (error l m st) = tokens st"
  by (simp_all add: error_def report_def)

lemma match_fields [simp]:
  "source (snd (match e st)) = source st" "start (snd (match e st)) = start st"
  "lineno (snd (match e st)) = lineno st" "tokens (snd (match e st)) = tokens st"
  "had_error (snd (match e st)) = had_error st"
  "console_error (snd (match e st)) = console_error st"
  by (simp_all add: match_def)

lemma match_current: "current st \<le> current (snd (match e st))"
  by (simp add: match_def)

lemma operator_fields [simp]:
  "source (operator a b st) = source st" "start (operator a b st) = start st"
  "lineno (operator a b st) = lineno st"
  "had_error (operator a b st) = had_error st"
  "console_error (operator a b st) = console_error st"
  by (simp_all add: operator_def match_def)

lemma operator_current: "current st \<le> current (operator a b st)"
  by (simp add: operator_def match_def)

lemma string_frame:
  "source (string st) = source st" "start (string st) = start st"
  "current st \<le> current (string st)" "lineno st \<le> lineno (string st)"
  by (simp_all add: string_def Let_def string_loop_closed advance_def)

lemma number_frame:
  "source (number st) = source st" "start (number st) = start st"
  "current st \<le> current (number st)" "lineno (number st) = lineno st"
  "had_error (number st) = had_error st" "console_error (number st) = console_error st"
  by (simp_all add: number_def Let_def digits_loop_closed advance_def)

lemma identifier_frame:
  "source (identifier' st) = source st" "start (identifier' st) = start st"
  "current st \<le> current (identifier' st)" "lineno (identifier' st) = lineno st"
  "had_error (identifier' st) = had_error st"
  "console_error (identifier' st) = console_error st"
  by (simp_all add: identifier'_def Let_def identifier_loop_closed)

text \<open>The branches of the dispatch in \<^verbatim>\<open>scanToken\<close>, after its \<^verbatim>\<open>advance\<close>.\<close>

lemma scanToken_branches:
  assumes "advance st0 = (c, st)"
  shows "(\<exists>t. (c, t) \<in> {(''('', LEFT_PAREN), ('')'', RIGHT_PAREN), (''{'', LEFT_BRACE),
                      (''}'', RIGHT_BRACE), ('','', COMMA), (''.'', DOT), (''-'', MINUS),
                      (''+'', PLUS), ('';'', SEMICOLON), (''*'', STAR)}
             \<and> scanToken st0 = addToken (TT t) None st)
       \<or> (\<exists>a b. (c, a, b) \<in> {(''!'', BANG_EQUAL, BANG), (''='', EQUAL_EQUAL, EQUAL),
                          (''<'', LESS_EQUAL, LESS), (''>'', GREATER_EQUAL, GREATER)}
             \<and> scanToken st0 = operator a b st)
       \<or> (c = ''/'' \<and> fst (match ''/'' st)
             \<and> scanToken st0 = comment_loop (snd (match ''/'' st)))
       \<or> (c = ''/'' \<and> \<not> fst (match ''/'' st)
             \<and> scanToken st0 = addToken (TT SLASH) None (snd (match ''/'' st)))
       \<or> (c \<in> {'' '', [CHR 0x0D], [CHR 0x09]} \<and> scanToken st0 = st)
       \<or> (c = [CHR 0x0A] \<and> scanToken st0 = st\<lparr>lineno := lineno st + 1\<rparr>)
       \<or> (c = [CHR 0x22] \<and> scanToken st0 = string st)
       \<or> (isDigit c \<and> scanToken st0 = number st)
       \<or> (isAlpha c \<and> \<not> isDigit c \<and> scanToken st0 = identifier' st)
       \<or> (c \<noteq> [CHR 0x0A] \<and> c \<noteq> [CHR 0x22] \<and> \<not> isDigit c \<and> \<not> isAlpha c
             \<and> scanToken st0 = error (lineno st) ''Unexpected character.'' st)"
proof -
  define P where "P x \<longleftrightarrow>
         (\<exists>t. (c, t) \<in> {(''('', LEFT_PAREN), ('')'', RIGHT_PAREN), (''{'', LEFT_BRACE),
                      (''}'', RIGHT_BRACE), ('','', COMMA), (''.'', DOT), (''-'', MINUS),
                      (''+'', PLUS), ('';'', SEMICOLON), (''*'', STAR)}
             \<and> x = addToken (TT t) None st)
       \<or> (\<exists>a b. (c, a, b) \<in> {(''!'', BANG_EQUAL, BANG), (''='', EQUAL_EQUAL, EQUAL),
                          (''<'', LESS_EQUAL, LESS), (''>'', GREATER_EQUAL, GREATER)}
             \<and> x = operator a b st)
       \<or> (c = ''/'' \<and> fst (match ''/'' st) \<and> x = comment_loop (snd (match ''/'' st)))
       \<or> (c = ''/'' \<and> \<not> fst (match ''/'' st)
             \<and> x = addToken (TT SLASH) None (snd (match ''/'' st)))
       \<or> (c \<in> {'' '', [CHR 0x0D], [CHR 0x09]} \<and> x = st)
       \<or> (c = [CHR 0x0A] \<and> x = st\<lparr>lineno := lineno st + 1\<rparr>)
       \<or> (c = [CHR 0x22] \<and> x = string st)
       \<or> (isDigit c \<and> x = number st)
       \<or> (isAlpha c \<and> \<not> isDigit c \<and> x = identifier' st)
       \<or> (c \<noteq> [CHR 0x0A] \<and> c \<noteq> [CHR 0x22] \<and> \<not> isDigit c \<and> \<not> isAlpha c
             \<and> x = error (lineno st) ''Unexpected character.'' st)" for x
  have punct: "P (addToken (TT t) None st)"
    if "(c, t) \<in> {(''('', LEFT_PAREN), ('')'', RIGHT_PAREN), (''{'', LEFT_BRACE),
                      (''}'', RIGHT_BRACE), ('','', COMMA), (''.'', DOT), (''-'', MINUS),
                      (''+'', PLUS), ('';'', SEMICOLON), (''*'', STAR)}" for t
    unfolding P_def by (rule disjI1, rule exI[of _ t]) (use that in simp)
  have oper: "P (operator a b st)"
    if "(c, a, b) \<in> {(''!'', BANG_EQUAL, BANG), (''='', EQUAL_EQUAL, EQUAL),
                          (''<'', LESS_EQUAL, LESS), (''>'', GREATER_EQUAL, GREATER)}" for a b
    unfolding P_def by (rule disjI2, rule disjI1, rule exI[of _ a], rule exI[of _ b]) (use that in simp)
  have others:
    "c = ''/'' \<Longrightarrow> fst (match ''/'' st) \<Longrightarrow> P (comment_loop (snd (match ''/'' st)))"
    "c = ''/'' \<Longrightarrow> \<not> fst (match ''/'' st)
       \<Longrightarrow> P (addToken (TT SLASH) None (snd (match ''/'' st)))"
    "c \<in> {'' '', [CHR 0x0D], [CHR 0x09]} \<Longrightarrow> P st"
    "c = [CHR 0x0A] \<Longrightarrow> P (st\<lparr>lineno := Suc (lineno st)\<rparr>)"
    "c = [CHR 0x22] \<Longrightarrow> P (string st)"
    "isDigit c \<Longrightarrow> P (number st)"
    "isAlpha c \<Longrightarrow> \<not> isDigit c \<Longrightarrow> P (identifier' st)"
    "c \<noteq> [CHR 0x0A] \<Longrightarrow> c \<noteq> [CHR 0x22] \<Longrightarrow> \<not> isDigit c \<Longrightarrow> \<not> isAlpha c
       \<Longrightarrow> P (error (lineno st) ''Unexpected character.'' st)"
    unfolding P_def by simp_all
  have "P (scanToken st0)"
    unfolding scanToken_def assms prod.case case_prod_beta
    by (simp add: punct oper others)
  then show ?thesis unfolding P_def .
qed

lemma scanToken_cases [consumes 1, case_names punct oper comment slash space newline str num ident err]:
  assumes "advance st0 = (c, st)"
  obtains t where "(c, t) \<in> {(''('', LEFT_PAREN), ('')'', RIGHT_PAREN), (''{'', LEFT_BRACE),
                      (''}'', RIGHT_BRACE), ('','', COMMA), (''.'', DOT), (''-'', MINUS),
                      (''+'', PLUS), ('';'', SEMICOLON), (''*'', STAR)}"
      "scanToken st0 = addToken (TT t) None st"
  | a b where "(c, a, b) \<in> {(''!'', BANG_EQUAL, BANG), (''='', EQUAL_EQUAL, EQUAL),
                          (''<'', LESS_EQUAL, LESS), (''>'', GREATER_EQUAL, GREATER)}"
      "scanToken st0 = operator a b st"
  | "c = ''/''" "fst (match ''/'' st)" "scanToken st0 = comment_loop (snd (match ''/'' st))"
  | "c = ''/''" "\<not> fst (match ''/'' st)"
      "scanToken st0 = addToken (TT SLASH) None (snd (match ''/'' st))"
  | "c \<in> {'' '', [CHR 0x0D], [CHR 0x09]}" "scanToken st0 = st"
  | "c = [CHR 0x0A]" "scanToken st0 = st\<lparr>lineno := lineno st + 1\<rparr>"
  | "c = [CHR 0x22]" "scanToken st0 = string st"
  | "isDigit c" "scanToken st0 = number st"
  | "isAlpha c" "\<not> isDigit c" "scanToken st0 = identifier' st"
  | "c \<noteq> [CHR 0x0A]" "c \<noteq> [CHR 0x22]" "\<not> isDigit c" "\<not> isAlpha c"
      "scanToken st0 = error (lineno st) ''Unexpected character.'' st"
  using scanToken_branches[OF assms]
  apply (elim disjE exE conjE)
  subgoal by (rule that(1))
  subgoal by (rule that(2))
  subgoal by (rule that(3))
  subgoal by (rule that(4))
  subgoal by (rule that(5))
  subgoal by (rule that(6))
  subgoal by (rule that(7))
  subgoal by (rule that(8))
  subgoal by (rule that(9))
  subgoal by (rule that(10))
  done

lemma scanToken_source [simp]: "source (scanToken st0) = source st0"
proof -
  obtain c st where a: "advance st0 = (c, st)" by (cases "advance st0")
  then have "source st = source st0" by (auto simp: advance_def)
  with a show ?thesis
    by (cases rule: scanToken_cases)
       (simp_all add: string_frame number_frame identifier_frame comment_loop_closed)
qed

lemma scanToken_start [simp]: "start (scanToken st0) = start st0"
proof -
  obtain c st where a: "advance st0 = (c, st)" by (cases "advance st0")
  then have "start st = start st0" by (auto simp: advance_def)
  with a show ?thesis
    by (cases rule: scanToken_cases)
       (simp_all add: string_frame number_frame identifier_frame comment_loop_closed)
qed

lemma scanToken_current: "current st0 < current (scanToken st0)"
proof -
  obtain c st where a: "advance st0 = (c, st)" by (cases "advance st0")
  then have c1: "current st = Suc (current st0)" by (auto simp: advance_def)
  from a show ?thesis
  proof (cases rule: scanToken_cases)
    case (oper a b)
    then show ?thesis using c1 operator_current[of st a b] by simp
  next
    case comment
    then show ?thesis using c1 match_current[of st "''/''"] by (simp add: comment_loop_closed)
  next
    case slash
    then show ?thesis using c1 match_current[of st "''/''"] by simp
  next
    case str
    then show ?thesis using c1 string_frame(3)[of st] by simp
  next
    case num
    then show ?thesis using c1 number_frame(3)[of st] by simp
  next
    case ident
    then show ?thesis using c1 identifier_frame(3)[of st] by simp
  qed (simp_all add: c1)
qed

lemma scanToken_lineno: "lineno st0 \<le> lineno (scanToken st0)"
proof -
  obtain c st where a: "advance st0 = (c, st)" by (cases "advance st0")
  then have c1: "lineno st = lineno st0" by (auto simp: advance_def)
  from a show ?thesis
  proof (cases rule: scanToken_cases)
    case str
    then show ?thesis using c1 string_frame(4)[of st] by simp
  qed (simp_all add: c1 comment_loop_closed number_frame identifier_frame)
qed

function scan_loop :: "scan_state \<Rightarrow> scan_state" where
  "scan_loop st =
     (if \<not> isAtEnd st then scan_loop (scanToken (st\<lparr>start := current st\<rparr>)) else st)"
  by pat_completeness auto
termination
proof (relation "measure (\<lambda>st. length (source st) - current st)")
  show "wf (measure (\<lambda>st. length (source st) - current st))" by simp
next
  fix st :: scan_state
  assume "\<not> isAtEnd st"
  then have "current st < length (source st)" by (simp add: isAtEnd_def)
  moreover have "current st < current (scanToken (st\<lparr>start := current st\<rparr>))"
    using scanToken_current[of "st\<lparr>start := current st\<rparr>"] by simp
  ultimately show "(scanToken (st\<lparr>start := current st\<rparr>), st)
      \<in> measure (\<lambda>st. length (source st) - current st)"
    by simp
qed

declare scan_loop.simps [simp del]

definition scan :: "scan_state \<Rightarrow> scan_state" where
  "scan st =
     (let st' = scan_loop st
      in st'\<lparr>tokens := tokens st' @
                [\<lparr>type = TT EOF, lexeme = [], literal = EmptyObject, line = lineno st'\<rparr>]\<rparr>)"

definition new_scanner :: "string \<Rightarrow> scan_state" where
  "new_scanner src =
     \<lparr>source = src, tokens = [], start = 0, current = 0, lineno = 1,
      had_error = False, console_error = []\<rparr>"

definition scanTokens :: "string \<Rightarrow> scan_state" where
  "scanTokens src = scan (new_scanner src)"

subsection \<open>The helpers in terms of the unread input\<close>

lemma substring_rest: "a \<le> length s \<Longrightarrow> substring s a (a + n) = take n (drop a s)"
  by (simp add: substring_def Let_def min_def max_def)

lemma peekNext_rest:
  "peekNext st = (case rest st of c # d # r \<Rightarrow> [d] | _ \<Rightarrow> [CHR 0x00])"
proof (cases "length (source st) \<le> current st + 1")
  case True
  then have "length (rest st) \<le> 1" by (simp add: rest_def)
  then show ?thesis using True by (auto simp: peekNext_def split: list.splits)
next
  case False
  then have "rest st = (source st ! current st) # (source st ! (current st + 1)) # drop (current st + 2) (source st)"
    by (simp add: rest_def Cons_nth_drop_Suc)
  then show ?thesis using False by (simp add: peekNext_def charAt_def)
qed

lemma match_rest:
  "match e st = (case rest st of [] \<Rightarrow> (False, st)
                 | c # r \<Rightarrow> if [c] = e then (True, st\<lparr>current := current st + 1\<rparr>) else (False, st))"
proof (cases "rest st")
  case Nil
  then show ?thesis by (simp add: match_def isAtEnd_rest)
next
  case (Cons c r)
  then have "\<not> isAtEnd st" by (simp add: isAtEnd_rest)
  moreover from Cons have "charAt (source st) (current st) = [c]"
    using peek_rest[of st] calculation by (simp add: peek_def)
  ultimately show ?thesis using Cons by (auto simp: match_def)
qed

lemma advance_rest:
  "advance st = ((case rest st of [] \<Rightarrow> [] | c # r \<Rightarrow> [c]), st\<lparr>current := current st + 1\<rparr>)"
proof (cases "rest st")
  case Nil
  then show ?thesis by (simp add: advance_def charAt_def rest_def)
next
  case (Cons c r)
  then have "\<not> isAtEnd st" by (simp add: isAtEnd_rest)
  moreover from Cons have "charAt (source st) (current st) = [c]"
    using peek_rest[of st] calculation by (simp add: peek_def)
  ultimately show ?thesis using Cons by (auto simp: advance_def)
qed

lemma rest_current [simp]: "rest (st\<lparr>current := current st + n\<rparr>) = drop n (rest st)"
  by (simp add: rest_def add.commute)

lemma rest_length: "current st \<le> length (source st) \<Longrightarrow> current st + length (rest st) = length (source st)"
  by (simp add: rest_def)

lemma run_bound:
  "current st \<le> length (source st) \<Longrightarrow> current st + length (takeWhile P (rest st)) \<le> length (source st)"
  using length_takeWhile_le[of P "rest st"] by (simp add: rest_def)

lemma drop_takeWhile_length: "drop (length (takeWhile P xs)) xs = dropWhile P xs"
  by (induction xs) auto

lemma take_takeWhile_length: "take (length (takeWhile P xs)) xs = takeWhile P xs"
  by (induction xs) auto

subsection \<open>Number, identifier and string lexing in closed form\<close>

lemma isDigit_single: "isDigit [c] = is_decimal_digit c"
  by (auto simp: isDigit_def is_decimal_digit_def)

text \<open>
  The number lexeme at the head of a text, in the words of the specification: a maximal
  run of digits, then a fractional part only when a dot is immediately followed by a digit.
\<close>

definition number_lexeme :: "string \<Rightarrow> string" where
  "number_lexeme s =
     (let ds = takeWhile is_decimal_digit s; r = dropWhile is_decimal_digit s
      in case r of
           c # d # r' \<Rightarrow>
             if c = CHR ''.'' \<and> is_decimal_digit d
             then ds @ c # takeWhile is_decimal_digit (d # r') else ds
         | _ \<Rightarrow> ds)"

lemma number_closed:
  "number st =
     (let n = current st + length (number_lexeme (rest st))
      in addToken (TT NUMBER)
           (Some (Num (parseFloat (substring (source st) (start st) n))))
           (st\<lparr>current := n\<rparr>))"
proof -
  define n1 where "n1 = length (takeWhile is_decimal_digit (rest st))"
  define st1 where "st1 = st\<lparr>current := current st + n1\<rparr>"
  have D: "(\<lambda>c. isDigit [c]) = is_decimal_digit" by (simp add: isDigit_single fun_eq_iff)
  have d1: "digits_loop st = st1" by (simp add: digits_loop_closed D st1_def n1_def)
  have r1: "dropWhile is_decimal_digit (rest st) = rest st1"
    by (simp add: st1_def n1_def drop_takeWhile_length)
  have lx: "number_lexeme (rest st) =
      (case rest st1 of
           c # d # r' \<Rightarrow>
             if c = CHR ''.'' \<and> is_decimal_digit d
             then takeWhile is_decimal_digit (rest st) @ c # takeWhile is_decimal_digit (d # r')
             else takeWhile is_decimal_digit (rest st)
         | _ \<Rightarrow> takeWhile is_decimal_digit (rest st))"
    by (simp add: number_lexeme_def r1 Let_def)
  define st2 where "st2 = (if peek st1 = ''.'' \<and> isDigit (peekNext st1)
                 then digits_loop (snd (advance st1)) else st1)"
  have num: "number st = addToken (TT NUMBER)
           (Some (Num (parseFloat (substring (source st2) (start st2) (current st2))))) st2"
    by (simp add: number_def d1 st2_def Let_def)
  have "st2 = st\<lparr>current := current st + length (number_lexeme (rest st))\<rparr>"
  proof (cases "rest st1")
    case Nil
    then show ?thesis by (simp add: st2_def lx peek_rest) (simp add: st1_def n1_def)
  next
    case (Cons c r)
    show ?thesis
    proof (cases r)
      case Nil
      with Cons show ?thesis
        by (simp add: st2_def lx peek_rest peekNext_rest isDigit_def) (simp add: st1_def n1_def)
    next
      case (Cons d r')
      with \<open>rest st1 = c # r\<close> have r: "rest st1 = c # d # r'" by simp
      have "rest (snd (advance st1)) = d # r'" using r by (simp add: rest_advance)
      then show ?thesis using r
        by (simp add: st2_def lx peek_rest peekNext_rest isDigit_single digits_loop_closed D)
           (simp add: st1_def n1_def advance_def)
    qed
  qed
  then show ?thesis using num by (simp add: Let_def)
qed

lemma identifier_closed:
  "identifier' st =
     (let n = current st + length (takeWhile (\<lambda>c. isAlphaNumeric [c]) (rest st));
          text = substring (source st) (start st) n
      in addToken (case keywords_at text of None \<Rightarrow> TT IDENTIFIER | Some t \<Rightarrow> t) None
           (st\<lparr>current := n\<rparr>))"
  by (simp add: identifier'_def identifier_loop_closed Let_def)

lemma string_unterminated:
  assumes "current st \<le> length (source st)" "CHR 0x22 \<notin> set (rest st)"
  shows "string st =
     (let l = lineno st + length (filter (\<lambda>c. c = CHR 0x0A) (rest st))
      in st\<lparr>current := length (source st), lineno := l, had_error := True,
            console_error := console_error st @
              [\<lparr>at_line = l, location = [], message = ''Unterminated string.''\<rparr>]\<rparr>)"
proof -
  have t: "takeWhile (\<lambda>c. c \<noteq> CHR 0x22) (rest st) = rest st" using assms(2) by (auto intro: takeWhile_eq_all_conv[THEN iffD2])
  have "current st + length (rest st) = length (source st)" using assms(1) by (rule rest_length)
  then show ?thesis
    by (simp add: string_def string_loop_closed t Let_def isAtEnd_def error_def report_def)
qed

lemma string_terminated:
  assumes "rest st = body @ CHR 0x22 # r" "CHR 0x22 \<notin> set body"
  shows "string st =
     (let l = lineno st + length (filter (\<lambda>c. c = CHR 0x0A) body);
          n = current st + length body
      in st\<lparr>current := n + 1, lineno := l,
            tokens := tokens st @
              [\<lparr>type = TT STRING, lexeme = substring (source st) (start st) (n + 1),
                literal = Str (substring (source st) (start st + 1) n), line = l\<rparr>]\<rparr>)"
proof -
  have t: "takeWhile (\<lambda>c. c \<noteq> CHR 0x22) (rest st) = body"
    using assms by (auto simp: takeWhile_tail)
  have "length (rest st) = length body + Suc (length r)" using assms(1) by simp
  then have "current st + length body < length (source st)" by (simp add: rest_def)
  then show ?thesis
    by (simp add: string_def string_loop_closed t Let_def isAtEnd_def advance_def addToken_def)
qed

lemma operator_closed:
  "operator two one st =
     (case rest st of
        c # r \<Rightarrow> if c = CHR ''='' then addToken (TT two) None (st\<lparr>current := current st + 1\<rparr>)
                 else addToken (TT one) None st
      | [] \<Rightarrow> addToken (TT one) None st)"
  by (simp add: operator_def match_rest split: list.splits)

subsection \<open>What one call of scanToken pushes and reports\<close>

lemma keywords_at_not_EOF: "keywords_at text \<noteq> Some (TT EOF)"
  by (auto simp: keywords_at_def keywords_own_def split: option.splits if_splits)

text \<open>What a state \<open>st'\<close> has pushed since \<open>st\<close>: nothing, or one token that is not EOF.\<close>

definition pushed :: "scan_state \<Rightarrow> scan_state \<Rightarrow> bool" where
  "pushed st st' \<longleftrightarrow>
     tokens st' = tokens st \<or>
     (\<exists>t. tokens st' = tokens st @ [t] \<and> type t \<noteq> TT EOF \<and>
          lexeme t = substring (source st') (start st') (current st') \<and>
          line t = lineno st')"

lemma pushed_addToken: "t \<noteq> TT EOF \<Longrightarrow> pushed st (addToken t l st)"
  by (simp add: pushed_def addToken_def Let_def)

lemma pushed_trans_eq: "tokens st = tokens st0 \<Longrightarrow> pushed st st' \<Longrightarrow> pushed st0 st'"
  by (simp add: pushed_def)

lemma pushed_operator: "two \<noteq> EOF \<Longrightarrow> one \<noteq> EOF \<Longrightarrow> pushed st (operator two one st)"
  by (auto simp: operator_closed split: list.splits intro!: pushed_trans_eq[OF _ pushed_addToken])

lemma pushed_string: "pushed st (string st)"
proof -
  have "tokens (string_loop st) = tokens st" by (simp add: string_loop_closed)
  then show ?thesis
    by (auto simp: string_def Let_def advance_def pushed_def addToken_def)
qed

lemma pushed_number: "pushed st (number st)"
  unfolding number_closed Let_def
  by (rule pushed_trans_eq[OF _ pushed_addToken]) simp_all

lemma pushed_identifier: "pushed st (identifier' st)"
  unfolding identifier_closed Let_def
  by (rule pushed_trans_eq[OF _ pushed_addToken])
     (use keywords_at_not_EOF in \<open>auto split: option.splits\<close>)

lemma pushed_scanToken: "pushed st0 (scanToken st0)"
proof -
  obtain c st where a: "advance st0 = (c, st)" by (cases "advance st0")
  then have eq: "tokens st = tokens st0" by (auto simp: advance_def)
  have "pushed st (scanToken st0)"
    using a
  proof (cases rule: scanToken_cases)
    case (punct t)
    then show ?thesis by (auto intro: pushed_addToken)
  next
    case (oper a b)
    then show ?thesis by (auto intro: pushed_operator)
  next
    case comment
    then show ?thesis by (simp add: comment_loop_closed pushed_def)
  next
    case slash
    then show ?thesis by (auto intro!: pushed_trans_eq[OF _ pushed_addToken])
  next
    case space
    then show ?thesis by (simp add: pushed_def)
  next
    case newline
    then show ?thesis by (simp add: pushed_def)
  next
    case str
    then show ?thesis by (simp add: pushed_string)
  next
    case num
    then show ?thesis by (simp add: pushed_number)
  next
    case ident
    then show ?thesis by (simp add: pushed_identifier)
  next
    case err
    then show ?thesis by (simp add: pushed_def)
  qed
  with eq show ?thesis by (rule pushed_trans_eq)
qed

text \<open>
  What a state \<open>st'\<close> has reported since \<open>st\<close>: nothing, or one error at the line counter
  of \<open>st'\<close>, pushing no token; an unterminated string only with the input exhausted.
\<close>

definition reported :: "scan_state \<Rightarrow> scan_state \<Rightarrow> bool" where
  "reported st st' \<longleftrightarrow>
     (console_error st' = console_error st \<and> had_error st' = had_error st) \<or>
     (\<exists>m. console_error st' = console_error st @
              [\<lparr>at_line = lineno st', location = [], message = m\<rparr>] \<and>
          had_error st' \<and> tokens st' = tokens st \<and>
          (m = ''Unexpected character.'' \<or> m = ''Unterminated string.'' \<and> isAtEnd st'))"

lemma reported_same:
  "console_error st' = console_error st \<Longrightarrow> had_error st' = had_error st \<Longrightarrow> reported st st'"
  by (simp add: reported_def)

lemma reported_string: "reported st (string st)"
  by (auto simp: string_def Let_def string_loop_closed advance_def error_def report_def
        reported_def isAtEnd_def)

lemma reported_scanToken: "reported st0 (scanToken st0)"
proof -
  obtain c st where a: "advance st0 = (c, st)" by (cases "advance st0")
  then have eq: "console_error st = console_error st0" "had_error st = had_error st0"
    "tokens st = tokens st0"
    by (auto simp: advance_def)
  have "reported st (scanToken st0)"
    using a
  proof (cases rule: scanToken_cases)
    case str
    then show ?thesis by (simp add: reported_string)
  next
    case err
    then show ?thesis by (simp add: reported_def error_def report_def)
  qed (auto simp: reported_same comment_loop_closed number_frame identifier_frame)
  with eq show ?thesis by (simp add: reported_def)
qed

lemma match_bound:
  "current st \<le> length (source st) \<Longrightarrow> current (snd (match e st)) \<le> length (source st)"
  by (auto simp: match_def isAtEnd_def)

lemma operator_bound:
  "current st \<le> length (source st) \<Longrightarrow> current (operator a b st) \<le> length (source st)"
  by (auto simp: operator_def match_def isAtEnd_def)

lemma string_bound:
  "current st \<le> length (source st) \<Longrightarrow> current (string st) \<le> length (source st)"
  using run_bound[of st "\<lambda>c. c \<noteq> CHR 0x22"]
  by (auto simp: string_def Let_def string_loop_closed advance_def isAtEnd_def)

lemma number_lexeme_prefix: "\<exists>r. s = number_lexeme s @ r"
proof -
  have s: "s = takeWhile is_decimal_digit s @ dropWhile is_decimal_digit s" by simp
  show ?thesis
  proof (cases "dropWhile is_decimal_digit s")
    case Nil
    then have "number_lexeme s = takeWhile is_decimal_digit s"
      by (simp only: number_lexeme_def Let_def list.case)
    then show ?thesis using s Nil by (metis append_Nil2)
  next
    case (Cons c r)
    note c = this
    show ?thesis
    proof (cases r)
      case Nil
      with c show ?thesis using s by (auto simp add: number_lexeme_def Let_def)
    next
      case (Cons d r')
      with c have r: "dropWhile is_decimal_digit s = c # d # r'" by simp
      show ?thesis
      proof (cases "c = CHR ''.'' \<and> is_decimal_digit d")
        case True
        then have "number_lexeme s =
            takeWhile is_decimal_digit s @ c # takeWhile is_decimal_digit (d # r')"
          by (simp only: number_lexeme_def Let_def r list.case simp_thms if_True)
        moreover have "d # r' =
            takeWhile is_decimal_digit (d # r') @ dropWhile is_decimal_digit (d # r')"
          by (simp only: takeWhile_dropWhile_id)
        ultimately have "s = number_lexeme s @ dropWhile is_decimal_digit (d # r')"
          using s r by (metis append.assoc append_Cons)
        then show ?thesis ..
      next
        case False
        then have "number_lexeme s = takeWhile is_decimal_digit s"
          by (simp only: number_lexeme_def Let_def r list.case simp_thms if_False)
        then show ?thesis using s by metis
      qed
    qed
  qed
qed

lemma number_lexeme_length: "length (number_lexeme s) \<le> length s"
  using number_lexeme_prefix[of s] by (metis length_append le_add1)

lemma number_bound:
  "current st \<le> length (source st) \<Longrightarrow> current (number st) \<le> length (source st)"
  using number_lexeme_length[of "rest st"] by (simp add: number_closed Let_def rest_def)

lemma identifier_bound:
  "current st \<le> length (source st) \<Longrightarrow> current (identifier' st) \<le> length (source st)"
  using run_bound[of st "\<lambda>c. isAlphaNumeric [c]"] by (simp add: identifier_closed Let_def)

lemma scanToken_bound:
  assumes "current st0 < length (source st0)"
  shows "current (scanToken st0) \<le> length (source st0)"
proof -
  obtain c st where a: "advance st0 = (c, st)" by (cases "advance st0")
  then have eq: "current st \<le> length (source st)" "source st = source st0"
    using assms by (auto simp: advance_def)
  have "current (scanToken st0) \<le> length (source st)"
    using a
  proof (cases rule: scanToken_cases)
    case comment
    have "current (snd (match ''/'' st)) \<le> length (source (snd (match ''/'' st)))"
      using match_bound[OF eq(1), of "''/''"] by simp
    from run_bound[OF this, of "\<lambda>c. c \<noteq> CHR 0x0A"] comment show ?thesis
      by (simp add: comment_loop_closed)
  qed (use eq operator_bound[of st] match_bound[of st] string_bound[of st] number_bound[of st]
        identifier_bound[of st] in auto)
  then show ?thesis by (simp add: eq)
qed

subsection \<open>The states of a scan\<close>

text \<open>
  \<open>reaches st st'\<close>: the main loop, started in \<open>st\<close>, is at the head of an iteration in
  \<open>st'\<close>. The states that \<open>reaches (new_scanner src)\<close> holds of are the states a scan of
  \<open>src\<close> goes through, one for each test of the loop condition.
\<close>

inductive reaches :: "scan_state \<Rightarrow> scan_state \<Rightarrow> bool" where
  here: "reaches st st"
| iteration: "reaches st st' \<Longrightarrow> \<not> isAtEnd st' \<Longrightarrow>
     reaches st (scanToken (st'\<lparr>start := current st'\<rparr>))"

code_pred reaches .

lemma reaches_trans:
  assumes "reaches st2 st3" "reaches st1 st2"
  shows "reaches st1 st3"
  using assms by (induction rule: reaches.induct) (auto intro: reaches.iteration)

lemma reaches_scan_loop: "reaches st st' \<Longrightarrow> scan_loop st' = scan_loop st"
proof (induction rule: reaches.induct)
  case (here st)
  show ?case ..
next
  case (iteration st st')
  have "scan_loop st' = scan_loop (scanToken (st'\<lparr>start := current st'\<rparr>))"
    using iteration.hyps(2) by (subst scan_loop.simps) simp
  with iteration.IH show ?case by simp
qed

lemma reaches_final: "reaches st (scan_loop st)"
proof (induction st rule: scan_loop.induct)
  case (1 st)
  show ?case
  proof (cases "isAtEnd st")
    case True
    then show ?thesis by (subst scan_loop.simps) (simp add: reaches.here)
  next
    case False
    let ?st1 = "scanToken (st\<lparr>start := current st\<rparr>)"
    have "reaches st ?st1" using False by (intro reaches.iteration reaches.here)
    moreover have "reaches ?st1 (scan_loop ?st1)" using 1 False by simp
    moreover have "scan_loop st = scan_loop ?st1" using False by (subst scan_loop.simps) simp
    ultimately show ?thesis by (auto intro: reaches_trans[rotated])
  qed
qed

lemma isAtEnd_scan_loop: "isAtEnd (scan_loop st)"
proof (induction st rule: scan_loop.induct)
  case (1 st)
  then show ?case by (subst scan_loop.simps) simp
qed

lemma reaches_source: "reaches st st' \<Longrightarrow> source st' = source st"
  by (induction rule: reaches.induct) simp_all

lemma reaches_lineno: "reaches st st' \<Longrightarrow> lineno st \<le> lineno st'"
proof (induction rule: reaches.induct)
  case (here st)
  show ?case ..
next
  case (iteration st st')
  then show ?case using scanToken_lineno[of "st'\<lparr>start := current st'\<rparr>"] by simp
qed

lemma reaches_bounds:
  assumes "reaches st st'" "start st \<le> current st" "current st \<le> length (source st)"
  shows "start st' \<le> current st' \<and> current st' \<le> length (source st')"
  using assms
proof (induction rule: reaches.induct)
  case (here st)
  then show ?case by simp
next
  case (iteration st st')
  let ?s = "st'\<lparr>start := current st'\<rparr>"
  have "current ?s < length (source ?s)" using iteration.hyps(2) by (simp add: isAtEnd_def)
  from scanToken_bound[OF this] scanToken_current[of ?s] show ?case by simp
qed

lemma reaches_tokens:
  "reaches st st' \<Longrightarrow> \<exists>new. tokens st' = tokens st @ new \<and> (\<forall>t\<in>set new. type t \<noteq> TT EOF)"
proof (induction rule: reaches.induct)
  case (here st)
  then show ?case by simp
next
  case (iteration st st')
  then obtain new where n: "tokens st' = tokens st @ new" "\<forall>t\<in>set new. type t \<noteq> TT EOF"
    by blast
  let ?s = "st'\<lparr>start := current st'\<rparr>"
  from pushed_scanToken[of ?s] show ?case
  proof (unfold pushed_def, elim disjE exE conjE)
    assume "tokens (scanToken ?s) = tokens ?s"
    with n show ?thesis by simp
  next
    fix t assume "tokens (scanToken ?s) = tokens ?s @ [t]" "type t \<noteq> TT EOF"
    with n have "tokens (scanToken ?s) = tokens st @ (new @ [t]) \<and>
        (\<forall>t\<in>set (new @ [t]). type t \<noteq> TT EOF)" by simp
    then show ?thesis by blast
  qed
qed

lemma new_scanner_fields [simp]:
  "source (new_scanner src) = src" "tokens (new_scanner src) = []"
  "start (new_scanner src) = 0" "current (new_scanner src) = 0"
  "lineno (new_scanner src) = 1" "had_error (new_scanner src) = False"
  "console_error (new_scanner src) = []"
  by (simp_all add: new_scanner_def)

lemma scan_fields [simp]:
  "source (scan st) = source st" "start (scan st) = start (scan_loop st)"
  "current (scan st) = current (scan_loop st)" "lineno (scan st) = lineno (scan_loop st)"
  "had_error (scan st) = had_error (scan_loop st)"
  "console_error (scan st) = console_error (scan_loop st)"
  "tokens (scan st) = tokens (scan_loop st) @
     [\<lparr>type = TT EOF, lexeme = [], literal = EmptyObject, line = lineno (scan_loop st)\<rparr>]"
  using reaches_source[OF reaches_final, of st] by (simp_all add: scan_def Let_def)

lemma scan_loop_reads_all: "current (scan_loop (new_scanner src)) = length src"
  using reaches_bounds[OF reaches_final, of "new_scanner src"]
    isAtEnd_scan_loop[of "new_scanner src"] reaches_source[OF reaches_final, of "new_scanner src"]
  by (simp add: isAtEnd_def)

text \<open>
  C1. For every input, \<^verbatim>\<open>scan\<close> returns (the functions of the model are total: each loop
  has its termination proof, with the distance from \<open>current\<close> to the end of the source
  as the measure) with the whole input read; the token list is not empty, its last element
  is the EOF token, with the empty lexeme and the final value of the line counter, and no
  other token on the list is an EOF token.
\<close>

theorem scan_ends_with_one_EOF:
  "tokens (scanTokens src) \<noteq> [] \<and>
   last (tokens (scanTokens src)) =
     \<lparr>type = TT EOF, lexeme = [], literal = EmptyObject, line = lineno (scanTokens src)\<rparr> \<and>
   length (filter (\<lambda>t. type t = TT EOF) (tokens (scanTokens src))) = 1 \<and>
   current (scanTokens src) = length src"
proof -
  let ?st = "scan_loop (new_scanner src)"
  have r: "reaches (new_scanner src) ?st" by (rule reaches_final)
  from reaches_tokens[OF r] obtain new where
    n: "tokens ?st = new" "\<forall>t\<in>set new. type t \<noteq> TT EOF" by auto
  then have "filter (\<lambda>t. type t = TT EOF) new = []" by (simp add: filter_empty_conv)
  then show ?thesis using n scan_loop_reads_all[of src] by (simp add: scanTokens_def)
qed

subsection \<open>Line numbers\<close>

text \<open>The number of newline characters of a text, and the 1-based number of the line that
  holds offset \<open>i\<close> of a text: one more than the number of newlines before the offset.\<close>

definition newlines :: "string \<Rightarrow> nat" where
  "newlines s = length (filter (\<lambda>c. c = CHR 0x0A) s)"

definition line_at :: "string \<Rightarrow> nat \<Rightarrow> nat" where
  "line_at src i = Suc (newlines (take i src))"

lemma newlines_simps [simp]:
  "newlines [] = 0" "newlines (c # s) = (if c = CHR 0x0A then Suc (newlines s) else newlines s)"
  "newlines (s @ s') = newlines s + newlines s'"
  by (simp_all add: newlines_def)

lemma newlines_none: "CHR 0x0A \<notin> set s \<Longrightarrow> newlines s = 0"
  by (induction s) auto

lemma isAlphaNumeric_single_not_newline: "isAlphaNumeric [c] \<Longrightarrow> c \<noteq> CHR 0x0A"
  by (auto simp: isAlphaNumeric_def isAlpha_def isDigit_def)

lemma number_lexeme_chars:
  "c \<in> set (number_lexeme s) \<Longrightarrow> is_decimal_digit c \<or> c = CHR ''.''"
  by (auto simp: number_lexeme_def Let_def split: list.splits if_splits dest: set_takeWhileD)

lemma number_lexeme_no_newline: "newlines (number_lexeme s) = 0"
  by (rule newlines_none) (auto dest: number_lexeme_chars simp: is_decimal_digit_def)

lemma rest_current_Suc [simp]: "rest (st\<lparr>current := Suc (current st)\<rparr>) = tl (rest st)"
  using rest_current[of st 1] by (simp add: drop_Suc)

text \<open>
  One call of \<^verbatim>\<open>scanToken\<close>, at a state with input left, reads \<open>k > 0\<close> characters and
  adds to the line counter the number of newlines among them.
\<close>

lemma scanToken_consumed:
  assumes "current st0 < length (source st0)"
  shows "\<exists>k. current (scanToken st0) = current st0 + k \<and>
             lineno (scanToken st0) = lineno st0 + newlines (take k (rest st0))"
proof -
  obtain x r where xr: "rest st0 = x # r"
    using assms by (cases "rest st0") (auto simp: rest_def)
  define st where "st = st0\<lparr>current := current st0 + 1\<rparr>"
  have a: "advance st0 = ([x], st)" by (simp add: advance_rest xr st_def)
  have r: "rest st = r" by (simp add: st_def xr)
  have st: "current st = current st0 + 1" "lineno st = lineno st0" by (simp_all add: st_def)
  have le: "current st \<le> length (source st)" using assms by (simp add: st_def)
  from a show ?thesis
  proof (cases rule: scanToken_cases)
    case (punct t)
    then have "x \<noteq> CHR 0x0A" by auto
    with punct st show ?thesis by (intro exI[of _ 1]) (simp add: xr)
  next
    case (oper a b)
    then have x: "x \<noteq> CHR 0x0A" by auto
    show ?thesis
    proof (cases "\<exists>r'. r = CHR ''='' # r'")
      case True
      then obtain r' where "r = CHR ''='' # r'" ..
      with oper st x show ?thesis
        by (intro exI[of _ 2]) (simp add: operator_closed r xr)
    next
      case False
      with oper st x show ?thesis
        by (intro exI[of _ 1]) (auto simp add: operator_closed r xr split: list.splits)
    qed
  next
    case comment
    then obtain r' where r': "r = CHR ''/'' # r'"
      using r by (auto simp: match_rest split: list.splits if_splits)
    let ?b = "takeWhile (\<lambda>c. c \<noteq> CHR 0x0A) r'"
    have "newlines ?b = 0" by (rule newlines_none) (auto dest: set_takeWhileD)
    moreover have "snd (match ''/'' st) = st\<lparr>current := current st + 1\<rparr>"
      by (simp add: match_rest r r')
    moreover have "rest (st\<lparr>current := current st + 1\<rparr>) = r'"
      using rest_current[of st 1] by (simp add: r r')
    ultimately have "current (scanToken st0) = current st + 1 + length ?b"
      "lineno (scanToken st0) = lineno st" "newlines ?b = 0"
      using comment by (simp_all add: comment_loop_closed del: One_nat_def)
    moreover have "x = CHR ''/''" using comment by simp
    ultimately show ?thesis using st
      by (intro exI[of _ "2 + length ?b"]) (simp add: r' xr take_takeWhile_length)
  next
    case slash
    then have "snd (match ''/'' st) = st" by (auto simp: match_def split: if_splits)
    with slash st show ?thesis by (intro exI[of _ 1]) (simp add: xr)
  next
    case space
    then have "x \<noteq> CHR 0x0A" by auto
    with space st show ?thesis by (intro exI[of _ 1]) (simp add: xr)
  next
    case newline
    with st show ?thesis by (intro exI[of _ 1]) (simp add: xr)
  next
    case str
    show ?thesis
    proof (cases "CHR 0x22 \<in> set r")
      case True
      then obtain body r2 where b: "r = body @ CHR 0x22 # r2" "CHR 0x22 \<notin> set body"
        by (auto dest: split_list_first)
      from string_terminated[of st body r2] b r str st show ?thesis
        by (intro exI[of _ "length body + 2"]) (simp add: Let_def xr newlines_def)
    next
      case False
      from string_unterminated[OF le] False r str st rest_length[OF le] show ?thesis
        by (intro exI[of _ "length r + 1"]) (simp add: Let_def xr newlines_def)
    qed
  next
    case num
    obtain r2 where "r = number_lexeme r @ r2" using number_lexeme_prefix[of r] ..
    then have "take (length (number_lexeme r)) r = number_lexeme r"
      by (metis append_eq_conv_conj)
    moreover have "x \<noteq> CHR 0x0A" using num by (auto simp: isDigit_def)
    ultimately show ?thesis using num st
      by (intro exI[of _ "length (number_lexeme r) + 1"])
         (simp add: number_closed Let_def r xr number_lexeme_no_newline)
  next
    case ident
    let ?b = "takeWhile (\<lambda>c. isAlphaNumeric [c]) r"
    have "newlines ?b = 0"
      by (rule newlines_none) (auto dest!: set_takeWhileD isAlphaNumeric_single_not_newline)
    moreover have "x \<noteq> CHR 0x0A" using ident by (auto simp: isAlpha_def)
    ultimately show ?thesis using ident st
      by (intro exI[of _ "length ?b + 1"])
         (simp add: identifier_closed Let_def r xr take_takeWhile_length)
  next
    case err
    with st show ?thesis by (intro exI[of _ 1]) (simp add: xr)
  qed
qed

lemma line_at_add:
  "line_at src (i + k) = line_at src i + newlines (take k (drop i src))"
  by (simp add: line_at_def take_add)

lemma reaches_line_at:
  assumes "reaches st st'" "current st \<le> length (source st)"
    "lineno st = line_at (source st) (current st)"
  shows "lineno st' = line_at (source st') (current st')"
  using assms
proof (induction rule: reaches.induct)
  case (here st)
  then show ?case by simp
next
  case (iteration st st')
  let ?s = "st'\<lparr>start := current st'\<rparr>"
  have lt: "current ?s < length (source ?s)" using iteration.hyps(2) by (simp add: isAtEnd_def)
  from scanToken_consumed[OF lt] obtain k where
    k: "current (scanToken ?s) = current st' + k"
       "lineno (scanToken ?s) = lineno st' + newlines (take k (rest st'))"
    by auto
  with iteration show ?case by (simp add: line_at_add rest_def)
qed

lemma reaches_new_scanner:
  assumes "reaches (new_scanner src) st"
  shows "source st = src" "start st \<le> current st" "current st \<le> length src"
    "lineno st = line_at src (current st)"
  using reaches_source[OF assms] reaches_bounds[OF assms] reaches_line_at[OF assms]
  by (simp_all add: line_at_def)

lemma scanTokens_lineno: "lineno (scanTokens src) = Suc (newlines src)"
proof -
  show ?thesis
    using reaches_new_scanner(4)[OF reaches_final, of src] scan_loop_reads_all[of src]
    by (simp add: scanTokens_def line_at_def)
qed

text \<open>
  At the head of every iteration of the main loop of a scan, \<open>start \<le> current \<le>
  length source\<close>; and the line counter never decreases from one such state \<open>st\<close> to a later
  one \<open>st'\<close>, nor from there to the end of the scan.
\<close>

lemma loop_head_invariant:
  assumes "reaches (new_scanner src) st" "reaches st st'"
  shows "start st \<le> current st \<and> current st \<le> length (source st) \<and>
         lineno st \<le> lineno st' \<and> lineno st' \<le> lineno (scanTokens src)"
proof -
  have r: "reaches (new_scanner src) st'" using assms by (rule reaches_trans[rotated])
  have "scan_loop st' = scan_loop (new_scanner src)" using r by (rule reaches_scan_loop)
  then have "reaches st' (scan_loop (new_scanner src))" using reaches_final[of st'] by simp
  then have "lineno st' \<le> lineno (scanTokens src)"
    using reaches_lineno by (simp add: scanTokens_def)
  then show ?thesis
    using reaches_new_scanner[OF assms(1)] reaches_lineno[OF assms(2)] by simp
qed

subsection \<open>The states inside an iteration\<close>

text \<open>
  The functions of the model return the state at the end of a call. The functions below
  follow them statement by statement and list, in order, the state after each statement
  of the call that changes the state: every increment of \<^verbatim>\<open>current\<close> and of \<^verbatim>\<open>line\<close>,
  every assignment to \<^verbatim>\<open>start\<close>, every push and every report.
\<close>

definition match_states :: "string \<Rightarrow> scan_state \<Rightarrow> scan_state list" where
  "match_states expected st =
     (if isAtEnd st then []
      else if charAt (source st) (current st) \<noteq> expected then []
      else [st\<lparr>current := current st + 1\<rparr>])"

function string_loop_states :: "scan_state \<Rightarrow> scan_state list" where
  "string_loop_states st =
     (if peek st \<noteq> [CHR 0x22] \<and> \<not> isAtEnd st
      then (if peek st = [CHR 0x0A]
            then st\<lparr>lineno := lineno st + 1\<rparr> #
                 snd (advance (st\<lparr>lineno := lineno st + 1\<rparr>)) #
                 string_loop_states (snd (advance (st\<lparr>lineno := lineno st + 1\<rparr>)))
            else snd (advance st) # string_loop_states (snd (advance st)))
      else [])"
  by pat_completeness auto
termination
  by (relation "measure (\<lambda>st. length (source st) - current st)")
     (auto simp: advance_def isAtEnd_def)

function digits_loop_states :: "scan_state \<Rightarrow> scan_state list" where
  "digits_loop_states st =
     (if isDigit (peek st) then snd (advance st) # digits_loop_states (snd (advance st))
      else [])"
  by pat_completeness auto
termination
  by (relation "measure (\<lambda>st. length (source st) - current st)")
     (auto simp: advance_def isAtEnd_def dest: isDigit_peek_not_at_end)

function identifier_loop_states :: "scan_state \<Rightarrow> scan_state list" where
  "identifier_loop_states st =
     (if isAlphaNumeric (peek st)
      then snd (advance st) # identifier_loop_states (snd (advance st)) else [])"
  by pat_completeness auto
termination
  by (relation "measure (\<lambda>st. length (source st) - current st)")
     (auto simp: advance_def isAtEnd_def dest: isAlphaNumeric_peek_not_at_end)

function comment_loop_states :: "scan_state \<Rightarrow> scan_state list" where
  "comment_loop_states st =
     (if peek st \<noteq> [CHR 0x0A] \<and> \<not> isAtEnd st
      then snd (advance st) # comment_loop_states (snd (advance st)) else [])"
  by pat_completeness auto
termination
  by (relation "measure (\<lambda>st. length (source st) - current st)")
     (auto simp: advance_def isAtEnd_def)

declare string_loop_states.simps [simp del] digits_loop_states.simps [simp del]
  identifier_loop_states.simps [simp del] comment_loop_states.simps [simp del]

definition string_states :: "scan_state \<Rightarrow> scan_state list" where
  "string_states st =
     string_loop_states st @
     (let st1 = string_loop st
      in if isAtEnd st1 then [error (lineno st1) ''Unterminated string.'' st1]
         else let st2 = snd (advance st1);
                  v = substring (source st2) (start st2 + 1) (current st2 - 1)
              in [st2, addToken (TT STRING) (Some (Str v)) st2])"

definition number_states :: "scan_state \<Rightarrow> scan_state list" where
  "number_states st =
     digits_loop_states st @
     (let st1 = digits_loop st
      in if peek st1 = ''.'' \<and> isDigit (peekNext st1)
         then snd (advance st1) # digits_loop_states (snd (advance st1)) else []) @
     [number st]"

definition identifier_states :: "scan_state \<Rightarrow> scan_state list" where
  "identifier_states st = identifier_loop_states st @ [identifier' st]"

definition operator_states :: "TokenType \<Rightarrow> TokenType \<Rightarrow> scan_state \<Rightarrow> scan_state list" where
  "operator_states two one st = match_states ''='' st @ [operator two one st]"

definition scanToken_states :: "scan_state \<Rightarrow> scan_state list" where
  "scanToken_states st0 =
     (case advance st0 of (c, st) \<Rightarrow>
        st #
        (if c = ''('' then [addToken (TT LEFT_PAREN) None st]
         else if c = '')'' then [addToken (TT RIGHT_PAREN) None st]
         else if c = ''{'' then [addToken (TT LEFT_BRACE) None st]
         else if c = ''}'' then [addToken (TT RIGHT_BRACE) None st]
         else if c = '','' then [addToken (TT COMMA) None st]
         else if c = ''.'' then [addToken (TT DOT) None st]
         else if c = ''-'' then [addToken (TT MINUS) None st]
         else if c = ''+'' then [addToken (TT PLUS) None st]
         else if c = '';'' then [addToken (TT SEMICOLON) None st]
         else if c = ''*'' then [addToken (TT STAR) None st]
         else if c = ''!'' then operator_states BANG_EQUAL BANG st
         else if c = ''='' then operator_states EQUAL_EQUAL EQUAL st
         else if c = ''<'' then operator_states LESS_EQUAL LESS st
         else if c = ''>'' then operator_states GREATER_EQUAL GREATER st
         else if c = ''/'' then
           match_states ''/'' st @
           (case match ''/'' st of (m, st') \<Rightarrow>
              if m then comment_loop_states st' else [addToken (TT SLASH) None st'])
         else if c = '' '' \<or> c = [CHR 0x0D] \<or> c = [CHR 0x09] then []
         else if c = [CHR 0x0A] then [st\<lparr>lineno := lineno st + 1\<rparr>]
         else if c = [CHR 0x22] then string_states st
         else if isDigit c then number_states st
         else if isAlpha c then identifier_states st
         else [error (lineno st) ''Unexpected character.'' st]))"

function scan_loop_states :: "scan_state \<Rightarrow> scan_state list" where
  "scan_loop_states st =
     (if \<not> isAtEnd st
      then st\<lparr>start := current st\<rparr> # scanToken_states (st\<lparr>start := current st\<rparr>) @
           scan_loop_states (scanToken (st\<lparr>start := current st\<rparr>))
      else [])"
  by pat_completeness auto
termination
proof (relation "measure (\<lambda>st. length (source st) - current st)")
  show "wf (measure (\<lambda>st. length (source st) - current st))" by simp
next
  fix st :: scan_state
  assume "\<not> isAtEnd st"
  then have "current st < length (source st)" by (simp add: isAtEnd_def)
  moreover have "current st < current (scanToken (st\<lparr>start := current st\<rparr>))"
    using scanToken_current[of "st\<lparr>start := current st\<rparr>"] by simp
  ultimately show "(scanToken (st\<lparr>start := current st\<rparr>), st)
      \<in> measure (\<lambda>st. length (source st) - current st)"
    by simp
qed

declare scan_loop_states.simps [simp del]

text \<open>
  The states of \<^verbatim>\<open>scanTokens\<close>: after the three initialisations, those of the main loop,
  and the state after the push of the EOF token.
\<close>

definition scan_states :: "string \<Rightarrow> scan_state list" where
  "scan_states src = new_scanner src # scan_loop_states (new_scanner src) @ [scanTokens src]"


subsection \<open>Bounds inside an iteration\<close>

text \<open>
  From a state to a later state of the same iteration: the source and \<^verbatim>\<open>start\<close> are kept,
  \<^verbatim>\<open>current\<close> and the line counter do not decrease, and \<^verbatim>\<open>current\<close> stays within the source.
\<close>

definition onward :: "scan_state \<Rightarrow> scan_state \<Rightarrow> bool" where
  "onward a b \<longleftrightarrow>
     source b = source a \<and> start b = start a \<and> current a \<le> current b \<and>
     current b \<le> length (source b) \<and> lineno a \<le> lineno b"

definition trail :: "scan_state \<Rightarrow> scan_state list \<Rightarrow> bool" where
  "trail st xs \<longleftrightarrow> successively onward (st # xs)"

lemma onward_trans: "onward a b \<Longrightarrow> onward b c \<Longrightarrow> onward a c"
  by (auto simp: onward_def)

lemma onward_advance: "\<not> isAtEnd st \<Longrightarrow> onward st (snd (advance st))"
  by (simp add: onward_def advance_def isAtEnd_def)

lemma onward_addToken: "current st \<le> length (source st) \<Longrightarrow> onward st (addToken t l st)"
  by (simp add: onward_def)

lemma onward_error: "current st \<le> length (source st) \<Longrightarrow> onward st (error l m st)"
  by (simp add: onward_def)

lemma onward_lineno:
  "current st \<le> length (source st) \<Longrightarrow> onward st (st\<lparr>lineno := lineno st + 1\<rparr>)"
  by (simp add: onward_def)

lemma onward_bound: "onward a b \<Longrightarrow> current b \<le> length (source b)"
  by (auto simp: onward_def)

lemma trail_Nil [simp]: "trail st []"
  by (simp add: trail_def)

lemma trail_Cons: "trail st (x # xs) \<longleftrightarrow> onward st x \<and> trail x xs"
  by (simp add: trail_def)

lemma trail_single: "trail st [x] \<longleftrightarrow> onward st x"
  by (simp add: trail_def)

lemma trail_append:
  "trail st xs \<Longrightarrow> trail (last (st # xs)) ys \<Longrightarrow> trail st (xs @ ys)"
proof (induction xs arbitrary: st)
  case Nil
  then show ?case by simp
next
  case (Cons x xs)
  then show ?case by (simp add: trail_Cons)
qed

lemma trail_last_bound:
  "trail st xs \<Longrightarrow> current st \<le> length (source st)
     \<Longrightarrow> current (last (st # xs)) \<le> length (source (last (st # xs)))"
proof (induction xs arbitrary: st)
  case Nil
  then show ?case by simp
next
  case (Cons x xs)
  then show ?case by (auto simp: trail_Cons onward_def)
qed

lemma digits_loop_states_last: "last (st # digits_loop_states st) = digits_loop st"
proof (induction st rule: digits_loop_states.induct)
  case (1 st)
  show ?case
  proof (cases "isDigit (peek st)")
    case True
    with 1 show ?thesis
      by (simp add: digits_loop_states.simps[of st] digits_loop.simps[of st])
  next
    case False
    then show ?thesis
      by (simp add: digits_loop_states.simps[of st] digits_loop.simps[of st])
  qed
qed

lemma digits_loop_states_trail:
  "current st \<le> length (source st) \<Longrightarrow> trail st (digits_loop_states st)"
proof (induction st rule: digits_loop_states.induct)
  case (1 st)
  show ?case
  proof (cases "isDigit (peek st)")
    case True
    then have o: "onward st (snd (advance st))"
      by (intro onward_advance isDigit_peek_not_at_end)
    from 1(1)[OF True onward_bound[OF o]] o True show ?thesis
      by (simp add: digits_loop_states.simps[of st] trail_Cons)
  next
    case False
    then show ?thesis by (simp add: digits_loop_states.simps[of st])
  qed
qed

lemma identifier_loop_states_last:
  "last (st # identifier_loop_states st) = identifier_loop st"
proof (induction st rule: identifier_loop_states.induct)
  case (1 st)
  show ?case
  proof (cases "isAlphaNumeric (peek st)")
    case True
    with 1 show ?thesis
      by (simp add: identifier_loop_states.simps[of st] identifier_loop.simps[of st])
  next
    case False
    then show ?thesis
      by (simp add: identifier_loop_states.simps[of st] identifier_loop.simps[of st])
  qed
qed

lemma identifier_loop_states_trail:
  "current st \<le> length (source st) \<Longrightarrow> trail st (identifier_loop_states st)"
proof (induction st rule: identifier_loop_states.induct)
  case (1 st)
  show ?case
  proof (cases "isAlphaNumeric (peek st)")
    case True
    then have o: "onward st (snd (advance st))"
      by (intro onward_advance isAlphaNumeric_peek_not_at_end)
    from 1(1)[OF True onward_bound[OF o]] o True show ?thesis
      by (simp add: identifier_loop_states.simps[of st] trail_Cons)
  next
    case False
    then show ?thesis by (simp add: identifier_loop_states.simps[of st])
  qed
qed

lemma comment_loop_states_last: "last (st # comment_loop_states st) = comment_loop st"
proof (induction st rule: comment_loop_states.induct)
  case (1 st)
  show ?case
  proof (cases "peek st \<noteq> [CHR 0x0A] \<and> \<not> isAtEnd st")
    case True
    with 1 show ?thesis
      by (simp add: comment_loop_states.simps[of st] comment_loop.simps[of st])
  next
    case False
    then show ?thesis
      by (auto simp: comment_loop_states.simps[of st] comment_loop.simps[of st])
  qed
qed

lemma comment_loop_states_trail:
  "current st \<le> length (source st) \<Longrightarrow> trail st (comment_loop_states st)"
proof (induction st rule: comment_loop_states.induct)
  case (1 st)
  show ?case
  proof (cases "peek st \<noteq> [CHR 0x0A] \<and> \<not> isAtEnd st")
    case True
    then have o: "onward st (snd (advance st))"
      by (intro onward_advance) simp
    from 1(1)[OF True onward_bound[OF o]] o True show ?thesis
      by (simp add: comment_loop_states.simps[of st] trail_Cons)
  next
    case False
    then show ?thesis by (auto simp: comment_loop_states.simps[of st])
  qed
qed

lemma string_loop_states_last: "last (st # string_loop_states st) = string_loop st"
proof (induction st rule: string_loop_states.induct)
  case (1 st)
  show ?case
  proof (cases "peek st \<noteq> [CHR 0x22] \<and> \<not> isAtEnd st")
    case True
    with 1 show ?thesis
      by (cases "peek st = [CHR 0x0A]")
         (simp_all add: string_loop_states.simps[of st] string_loop.simps[of st])
  next
    case False
    then show ?thesis
      by (auto simp: string_loop_states.simps[of st] string_loop.simps[of st])
  qed
qed

lemma string_loop_states_trail:
  "current st \<le> length (source st) \<Longrightarrow> trail st (string_loop_states st)"
proof (induction st rule: string_loop_states.induct)
  case (1 st)
  show ?case
  proof (cases "peek st \<noteq> [CHR 0x22] \<and> \<not> isAtEnd st")
    case True
    show ?thesis
    proof (cases "peek st = [CHR 0x0A]")
      case nl: True
      let ?s1 = "st\<lparr>lineno := lineno st + 1\<rparr>"
      have o1: "onward st ?s1" using "1.prems" by (rule onward_lineno)
      have "\<not> isAtEnd ?s1" using True by (simp add: isAtEnd_def)
      then have o2: "onward ?s1 (snd (advance ?s1))" by (rule onward_advance)
      from 1(1)[OF True nl onward_bound[OF o2]] o1 o2 True nl show ?thesis
        by (simp add: string_loop_states.simps[of st] trail_Cons)
    next
      case other: False
      from True have o: "onward st (snd (advance st))" by (intro onward_advance) simp
      from 1(2)[OF True other onward_bound[OF o]] o True other show ?thesis
        by (simp add: string_loop_states.simps[of st] trail_Cons)
    qed
  next
    case False
    then show ?thesis by (auto simp: string_loop_states.simps[of st])
  qed
qed

lemma match_states_last: "last (st # match_states e st) = snd (match e st)"
  by (simp add: match_states_def match_def)

lemma match_states_trail: "current st \<le> length (source st) \<Longrightarrow> trail st (match_states e st)"
  by (simp add: match_states_def trail_Cons onward_def isAtEnd_def)

lemma string_states_last: "last (string_states st) = string st"
  by (simp add: string_states_def string_def Let_def)

lemma string_states_trail:
  assumes "current st \<le> length (source st)"
  shows "trail st (string_states st)"
proof -
  let ?s1 = "string_loop st"
  have l: "last (st # string_loop_states st) = ?s1" by (rule string_loop_states_last)
  have t: "trail st (string_loop_states st)" using assms by (rule string_loop_states_trail)
  have b: "current ?s1 \<le> length (source ?s1)" using trail_last_bound[OF t assms] l by simp
  show ?thesis
  proof (cases "isAtEnd ?s1")
    case True
    have "trail ?s1 [error (lineno ?s1) ''Unterminated string.'' ?s1]"
      using b by (simp add: trail_single onward_error)
    with True trail_append[OF t, unfolded l] show ?thesis
      by (simp add: string_states_def Let_def)
  next
    case False
    let ?s2 = "snd (advance ?s1)"
    have o: "onward ?s1 ?s2" using False by (rule onward_advance)
    have "trail ?s1 [?s2, addToken (TT STRING)
        (Some (Str (substring (source ?s2) (start ?s2 + 1) (current ?s2 - 1)))) ?s2]"
      using o onward_addToken[OF onward_bound[OF o]] by (simp add: trail_Cons)
    with False trail_append[OF t, unfolded l] show ?thesis
      by (simp add: string_states_def Let_def)
  qed
qed

lemma number_states_last: "last (number_states st) = number st"
  by (simp add: number_states_def)

lemma number_states_trail:
  assumes "current st \<le> length (source st)"
  shows "trail st (number_states st)"
proof -
  let ?s1 = "digits_loop st"
  let ?frac = "peek ?s1 = ''.'' \<and> isDigit (peekNext ?s1)"
  let ?mid = "if ?frac then snd (advance ?s1) # digits_loop_states (snd (advance ?s1)) else []"
  let ?s2 = "if ?frac then digits_loop (snd (advance ?s1)) else ?s1"
  have l1: "last (st # digits_loop_states st) = ?s1" by (rule digits_loop_states_last)
  have t1: "trail st (digits_loop_states st)" using assms by (rule digits_loop_states_trail)
  have b1: "current ?s1 \<le> length (source ?s1)" using trail_last_bound[OF t1 assms] l1 by simp
  have l2: "last (?s1 # ?mid) = ?s2"
    using digits_loop_states_last[of "snd (advance ?s1)"] by auto
  have t2: "trail ?s1 ?mid"
  proof (cases ?frac)
    case True
    then have "\<not> isAtEnd ?s1" by (auto simp: peek_def isAtEnd_def split: if_splits)
    then have o: "onward ?s1 (snd (advance ?s1))" by (rule onward_advance)
    with True digits_loop_states_trail[OF onward_bound[OF o]] show ?thesis
      by (simp add: trail_Cons)
  next
    case False
    then show ?thesis by auto
  qed
  have b2: "current ?s2 \<le> length (source ?s2)" using trail_last_bound[OF t2 b1] l2 by simp
  have n: "number st = addToken (TT NUMBER)
      (Some (Num (parseFloat (substring (source ?s2) (start ?s2) (current ?s2))))) ?s2"
    by (simp add: number_def Let_def)
  have t3: "trail ?s2 [number st]"
    unfolding n trail_single using b2 by (rule onward_addToken)
  have t4: "trail ?s1 (?mid @ [number st])"
    by (rule trail_append[OF t2]) (simp only: l2 t3)
  have "trail st (digits_loop_states st @ ?mid @ [number st])"
    by (rule trail_append[OF t1]) (simp only: l1 t4)
  then show ?thesis by (simp add: number_states_def Let_def)
qed

lemma identifier_states_last: "last (identifier_states st) = identifier' st"
  by (simp add: identifier_states_def)

lemma identifier_states_trail:
  assumes "current st \<le> length (source st)"
  shows "trail st (identifier_states st)"
proof -
  let ?s1 = "identifier_loop st"
  have l: "last (st # identifier_loop_states st) = ?s1" by (rule identifier_loop_states_last)
  have t: "trail st (identifier_loop_states st)"
    using assms by (rule identifier_loop_states_trail)
  have b: "current ?s1 \<le> length (source ?s1)" using trail_last_bound[OF t assms] l by simp
  have t2: "trail ?s1 [identifier' st]"
    using b by (simp add: trail_single identifier'_def Let_def onward_addToken)
  show ?thesis
    unfolding identifier_states_def by (rule trail_append[OF t]) (simp only: l t2)
qed

lemma operator_states_last: "last (operator_states a b st) = operator a b st"
  by (simp add: operator_states_def)

lemma operator_states_trail:
  assumes "current st \<le> length (source st)"
  shows "trail st (operator_states a b st)"
proof -
  let ?s1 = "snd (match ''='' st)"
  have l: "last (st # match_states ''='' st) = ?s1" by (rule match_states_last)
  have t: "trail st (match_states ''='' st)" using assms by (rule match_states_trail)
  have b: "current ?s1 \<le> length (source ?s1)" using trail_last_bound[OF t assms] l by simp
  have t2: "trail ?s1 [operator a b st]"
    using b by (simp add: trail_single operator_def case_prod_beta onward_addToken)
  show ?thesis
    unfolding operator_states_def by (rule trail_append[OF t]) (simp only: l t2)
qed


lemma last_Cons_append: "last (x # xs @ ys) = last (last (x # xs) # ys)"
  by (cases ys) simp_all

lemma scanToken_states_last: "last (scanToken_states st0) = scanToken st0"
proof -
  obtain c st where a: "advance st0 = (c, st)" by (cases "advance st0")
  define Q where "Q xs y \<longleftrightarrow> last (st # xs) = y" for xs y
  have leaves: "Q [x] x" "Q [] st"
    "Q (operator_states t u st) (operator t u st)"
    "Q (string_states st) (string st)"
    "Q (number_states st) (number st)"
    "Q (identifier_states st) (identifier' st)" for x t u
    using operator_states_last[of t u st] string_states_last[of st] number_states_last[of st]
      identifier_states_last[of st]
    by (simp_all add: Q_def operator_states_def string_states_def number_states_def
        identifier_states_def Let_def)
  have slash: "Q (match_states ''/'' st @
           (case match ''/'' st of (m, st') \<Rightarrow>
              if m then comment_loop_states st' else [addToken (TT SLASH) None st']))
         (case match ''/'' st of (m, st') \<Rightarrow>
             if m then comment_loop st' else addToken (TT SLASH) None st')"
    unfolding Q_def last_Cons_append[of st] match_states_last case_prod_beta
    by (cases "fst (match ''/'' st)") (simp_all add: comment_loop_states_last[simplified])
  have "Q (tl (scanToken_states st0)) (scanToken st0)"
    unfolding scanToken_states_def scanToken_def a prod.case list.sel
    by (simp add: leaves slash)
  then show ?thesis
    unfolding Q_def by (simp add: scanToken_states_def a)
qed

lemma scanToken_states_trail:
  assumes "current st0 < length (source st0)"
  shows "trail st0 (scanToken_states st0)"
proof -
  obtain c st where a: "advance st0 = (c, st)" by (cases "advance st0")
  have "\<not> isAtEnd st0" using assms by (simp add: isAtEnd_def)
  from onward_advance[OF this] have o: "onward st0 st" by (simp add: a)
  have b: "current st \<le> length (source st)" using o by (rule onward_bound)
  define P where "P xs \<longleftrightarrow> trail st xs" for xs
  have leaves: "P [addToken t l st]" "P []" "P [st\<lparr>lineno := Suc (lineno st)\<rparr>]"
    "P (operator_states x y st)" "P (string_states st)" "P (number_states st)"
    "P (identifier_states st)" "P [error n m st]" for t l x y n m
    using b onward_lineno[of st]
    by (simp_all add: P_def trail_single onward_addToken onward_error operator_states_trail
        string_states_trail number_states_trail identifier_states_trail)
  have slash: "P (match_states ''/'' st @
           (case match ''/'' st of (m, st') \<Rightarrow>
              if m then comment_loop_states st' else [addToken (TT SLASH) None st']))"
  proof -
    let ?s1 = "snd (match ''/'' st)"
    have l: "last (st # match_states ''/'' st) = ?s1" by (rule match_states_last)
    have t: "trail st (match_states ''/'' st)" using b by (rule match_states_trail)
    have b1: "current ?s1 \<le> length (source ?s1)" using trail_last_bound[OF t b] l by simp
    have t2: "trail ?s1 (case match ''/'' st of (m, st') \<Rightarrow>
              if m then comment_loop_states st' else [addToken (TT SLASH) None st'])"
      using b1 by (simp add: case_prod_beta comment_loop_states_trail trail_single onward_addToken)
    show ?thesis unfolding P_def by (rule trail_append[OF t]) (simp only: l t2)
  qed
  have "P (tl (scanToken_states st0))"
    unfolding scanToken_states_def a prod.case list.sel
    by (simp add: leaves slash)
  then show ?thesis
    using o by (simp add: P_def scanToken_states_def a trail_Cons)
qed

lemma scanToken_states_not_Nil: "scanToken_states st0 \<noteq> []"
  by (simp add: scanToken_states_def case_prod_beta)

subsection \<open>Bounds and the line counter over a whole scan\<close>

text \<open>
  From a state to a later state of the scan: the source is kept, \<^verbatim>\<open>current\<close> and the line
  counter do not decrease, and the later state has \<open>start \<le> current \<le> length source\<close>.
\<close>

definition later :: "scan_state \<Rightarrow> scan_state \<Rightarrow> bool" where
  "later a b \<longleftrightarrow>
     source b = source a \<and> start b \<le> current b \<and> current b \<le> length (source b) \<and>
     current a \<le> current b \<and> lineno a \<le> lineno b"

lemma later_trans: "later a b \<Longrightarrow> later b c \<Longrightarrow> later a c"
  by (auto simp: later_def)

lemma successively_join:
  "successively P (x # xs) \<Longrightarrow> successively P (last (x # xs) # ys)
     \<Longrightarrow> successively P (x # xs @ ys)"
proof (induction xs arbitrary: x)
  case Nil
  then show ?case by simp
next
  case (Cons y xs)
  then show ?case by simp
qed

lemma trail_later:
  "start st \<le> current st \<Longrightarrow> trail st xs \<Longrightarrow> successively later (st # xs)"
proof (induction xs arbitrary: st)
  case Nil
  then show ?case by simp
next
  case (Cons x xs)
  from Cons.prems have o: "onward st x" and t: "trail x xs" by (simp_all add: trail_Cons)
  from o Cons.prems(1) have "later st x" "start x \<le> current x"
    by (auto simp: onward_def later_def)
  with Cons.IH[OF _ t] show ?case by simp
qed

lemma scan_loop_states_last: "last (st # scan_loop_states st) = scan_loop st"
proof (induction st rule: scan_loop_states.induct)
  case (1 st)
  show ?case
  proof (cases "isAtEnd st")
    case True
    then show ?thesis by (simp add: scan_loop_states.simps[of st] scan_loop.simps[of st])
  next
    case False
    let ?s0 = "st\<lparr>start := current st\<rparr>"
    have "last (st # scan_loop_states st) =
        last (?s0 # scanToken_states ?s0 @ scan_loop_states (scanToken ?s0))"
      using False by (simp add: scan_loop_states.simps[of st])
    also have "\<dots> = last (last (?s0 # scanToken_states ?s0) # scan_loop_states (scanToken ?s0))"
      by (rule last_Cons_append)
    also have "last (?s0 # scanToken_states ?s0) = scanToken ?s0"
      using scanToken_states_last[of ?s0] scanToken_states_not_Nil[of ?s0] by simp
    also have "last (scanToken ?s0 # scan_loop_states (scanToken ?s0)) = scan_loop (scanToken ?s0)"
      using False by (rule 1)
    also have "\<dots> = scan_loop st" using False by (simp add: scan_loop.simps[of st])
    finally show ?thesis .
  qed
qed

lemma scan_loop_states_later:
  "start st \<le> current st \<Longrightarrow> current st \<le> length (source st)
     \<Longrightarrow> successively later (st # scan_loop_states st)"
proof (induction st rule: scan_loop_states.induct)
  case (1 st)
  show ?case
  proof (cases "isAtEnd st")
    case True
    then show ?thesis by (simp add: scan_loop_states.simps[of st])
  next
    case False
    let ?s0 = "st\<lparr>start := current st\<rparr>"
    let ?s1 = "scanToken ?s0"
    from False have lt: "current ?s0 < length (source ?s0)" by (simp add: isAtEnd_def)
    have l0: "later st ?s0" using "1.prems" by (simp add: later_def)
    have "trail ?s0 (scanToken_states ?s0)" using lt by (rule scanToken_states_trail)
    then have s0: "successively later (?s0 # scanToken_states ?s0)"
      by (intro trail_later) simp_all
    have l: "last (?s0 # scanToken_states ?s0) = ?s1"
      using scanToken_states_last[of ?s0] scanToken_states_not_Nil[of ?s0] by simp
    have "start ?s1 \<le> current ?s1" "current ?s1 \<le> length (source ?s1)"
      using scanToken_start[of ?s0] scanToken_current[of ?s0] scanToken_bound[OF lt]
        scanToken_source[of ?s0] by simp_all
    with False have s1: "successively later (?s1 # scan_loop_states ?s1)" by (rule 1)
    have "successively later (?s0 # scanToken_states ?s0 @ scan_loop_states ?s1)"
      by (rule successively_join[OF s0]) (simp only: l s1)
    with l0 False show ?thesis by (simp add: scan_loop_states.simps[of st])
  qed
qed

lemma scan_states_later: "successively later (scan_states src)"
proof -
  let ?n = "new_scanner src"
  have s: "successively later (?n # scan_loop_states ?n)"
    by (rule scan_loop_states_later) simp_all
  have l: "last (?n # scan_loop_states ?n) = scan_loop ?n" by (rule scan_loop_states_last)
  have "start (scan_loop ?n) \<le> current (scan_loop ?n) \<and>
        current (scan_loop ?n) \<le> length (source (scan_loop ?n))"
    using reaches_final[of ?n] by (rule reaches_bounds) simp_all
  then have "later (scan_loop ?n) (scanTokens src)"
    using reaches_source[OF reaches_final[of ?n]] by (auto simp: later_def scanTokens_def)
  then have e: "successively later (scan_loop ?n # [scanTokens src])" by simp
  show ?thesis
    unfolding scan_states_def by (rule successively_join[OF s]) (simp only: l e)
qed

text \<open>
  The states of the model of the main loop, those at the head of an iteration, are among
  the states listed.
\<close>

lemma reaches_scan_loop_states:
  assumes "reaches st0 st"
  shows "\<exists>pre. st0 # scan_loop_states st0 = pre @ st # scan_loop_states st"
  using assms
proof (induction rule: reaches.induct)
  case (here st)
  show ?case by (rule exI[of _ "[]"]) simp
next
  case (iteration st st')
  then obtain pre where p: "st # scan_loop_states st = pre @ st' # scan_loop_states st'"
    by blast
  let ?s0 = "st'\<lparr>start := current st'\<rparr>"
  have "scanToken_states ?s0 = butlast (scanToken_states ?s0) @ [scanToken ?s0]"
    using scanToken_states_last[of ?s0] scanToken_states_not_Nil[of ?s0]
      append_butlast_last_id[of "scanToken_states ?s0"] by simp
  then have "scan_loop_states st' =
      (?s0 # butlast (scanToken_states ?s0)) @ scanToken ?s0 # scan_loop_states (scanToken ?s0)"
    using iteration(2) scan_loop_states.simps[of st'] by simp
  with p have "st # scan_loop_states st =
      (pre @ st' # ?s0 # butlast (scanToken_states ?s0)) @
        scanToken ?s0 # scan_loop_states (scanToken ?s0)"
    by simp
  then show ?case by (rule exI)
qed

lemma reaches_scan_states:
  "reaches (new_scanner src) st \<Longrightarrow> st \<in> set (scan_states src)"
proof -
  assume "reaches (new_scanner src) st"
  from reaches_scan_loop_states[OF this] obtain pre where
    "new_scanner src # scan_loop_states (new_scanner src) = pre @ st # scan_loop_states st"
    by blast
  then have "st \<in> set (new_scanner src # scan_loop_states (new_scanner src))"
    by (metis in_set_conv_decomp)
  then show ?thesis by (auto simp: scan_states_def)
qed

text \<open>
  C5. In every state of a scan, from the initial state to the state returned, after each
  statement of the scanner that changes the state, \<open>start \<le> current \<le> length source\<close>, where
  the source is the text given to the scan; and the line counter never decreases from one
  state to the next.
\<close>

theorem scan_states_invariant:
  "(\<forall>s\<in>set (scan_states src).
      source s = src \<and> start s \<le> current s \<and> current s \<le> length (source s)) \<and>
   sorted (map lineno (scan_states src))"
proof -
  have "transp later" by (rule transpI) (rule later_trans)
  with scan_states_later[of src] have w: "sorted_wrt later (scan_states src)"
    by (simp add: successively_conv_sorted_wrt)
  then have "sorted_wrt (\<lambda>a b. lineno a \<le> lineno b) (scan_states src)"
    by (rule sorted_wrt_mono_rel[rotated]) (simp add: later_def)
  then have m: "sorted (map lineno (scan_states src))" by (simp add: sorted_wrt_map)
  have "source s = src \<and> start s \<le> current s \<and> current s \<le> length (source s)"
    if "s \<in> set (scan_states src)" for s
  proof (cases "s = new_scanner src")
    case True
    then show ?thesis by simp
  next
    case False
    with that w have "later (new_scanner src) s" by (auto simp: scan_states_def)
    then show ?thesis by (auto simp: later_def)
  qed
  with m show ?thesis by blast
qed

theorem scan_states_invariant_witness:
  "map (\<lambda>s. (start s, current s, length (source s), lineno s))
       (scan_states [CHR ''a'', CHR 0x22, CHR 0x0A, CHR 0x22]) =
     [(0, 0, 4, 1), (0, 0, 4, 1), (0, 1, 4, 1), (0, 1, 4, 1), (1, 1, 4, 1), (1, 2, 4, 1),
      (1, 2, 4, 2), (1, 3, 4, 2), (1, 4, 4, 2), (1, 4, 4, 2), (1, 4, 4, 2)] \<and>
   list_all (\<lambda>s. start s \<le> current s \<and> current s \<le> length (source s))
       (scan_states [CHR ''a'', CHR 0x22, CHR 0x0A, CHR 0x22]) \<and>
   sorted (map lineno (scan_states [CHR ''a'', CHR 0x22, CHR 0x0A, CHR 0x22]))"
proof -
  have e: "map (\<lambda>s. (start s, current s, length (source s), lineno s))
       (scan_states [CHR ''a'', CHR 0x22, CHR 0x0A, CHR 0x22]) =
     [(0, 0, 4, 1), (0, 0, 4, 1), (0, 1, 4, 1), (0, 1, 4, 1), (1, 1, 4, 1), (1, 2, 4, 1),
      (1, 2, 4, 2), (1, 3, 4, 2), (1, 4, 4, 2), (1, 4, 4, 2), (1, 4, 4, 2)]"
    by code_simp
  from scan_states_invariant[of "[CHR ''a'', CHR 0x22, CHR 0x0A, CHR 0x22]"]
  have b: "\<forall>s\<in>set (scan_states [CHR ''a'', CHR 0x22, CHR 0x0A, CHR 0x22]).
      start s \<le> current s \<and> current s \<le> length (source s)"
    and m: "sorted (map lineno (scan_states [CHR ''a'', CHR 0x22, CHR 0x0A, CHR 0x22]))"
    by blast+
  show ?thesis unfolding list_all_iff by (intro conjI e b m)
qed

subsection \<open>The line of a token\<close>

text \<open>
  C2, as the code has it. A token pushed by an iteration of the main loop has the text read
  by that iteration as its lexeme, and its \<open>line\<close> is the value of the line counter when
  it is pushed, after the lexeme has been read: the number of the line on which the lexeme
  starts plus the number of newlines inside the lexeme, that is, the line on which the
  lexeme ends. Only a string literal can hold a newline; a token whose lexeme has none
  carries the line on which it starts. The EOF token carries the line of the end of the
  source.
\<close>

theorem token_line_is_line_of_lexeme_end:
  assumes "reaches (new_scanner src) st" "\<not> isAtEnd st"
  shows "(let st' = scanToken (st\<lparr>start := current st\<rparr>)
          in tokens st' = tokens st \<or>
             (\<exists>t. tokens st' = tokens st @ [t] \<and>
                  lexeme t = take (current st' - current st) (drop (current st) src) \<and>
                  line t = line_at src (current st) + newlines (lexeme t) \<and>
                  line t = line_at src (current st'))) \<and>
         line (last (tokens (scanTokens src))) = line_at src (length src)"
proof -
  let ?s = "st\<lparr>start := current st\<rparr>"
  let ?st' = "scanToken ?s"
  note inv = reaches_new_scanner[OF assms(1)]
  have lt: "current ?s < length (source ?s)" using assms(2) by (simp add: isAtEnd_def)
  from scanToken_consumed[OF lt] obtain k where
    k: "current ?st' = current st + k" "lineno ?st' = lineno st + newlines (take k (rest st))"
    by auto
  have r': "reaches (new_scanner src) ?st'"
    using assms by (rule reaches.iteration)
  note inv' = reaches_new_scanner[OF r']
  have sub: "substring (source ?st') (start ?st') (current ?st') = take k (drop (current st) src)"
    using inv k(1) by (simp add: substring_rest)
  have l: "lineno ?st' = line_at src (current st) + newlines (take k (drop (current st) src))"
    using k(2) inv(1,4) by (simp add: rest_def)
  have "tokens ?st' = tokens st \<or>
             (\<exists>t. tokens ?st' = tokens st @ [t] \<and>
                  lexeme t = take (current ?st' - current st) (drop (current st) src) \<and>
                  line t = line_at src (current st) + newlines (lexeme t) \<and>
                  line t = line_at src (current ?st'))"
    using pushed_scanToken[of ?s] sub l inv'(4) k(1) by (auto simp: pushed_def)
  moreover have "line (last (tokens (scanTokens src))) = line_at src (length src)"
    using scanTokens_lineno[of src] by (simp add: scanTokens_def line_at_def)
  ultimately show ?thesis by (simp add: Let_def)
qed

lemma multi_line_string_first_iteration:
  "scanToken ((new_scanner [CHR 0x22, CHR ''a'', CHR 0x0A, CHR ''b'', CHR 0x22])\<lparr>start := 0\<rparr>) =
   \<lparr>source = [CHR 0x22, CHR ''a'', CHR 0x0A, CHR ''b'', CHR 0x22],
    tokens = [\<lparr>type = TT STRING, lexeme = [CHR 0x22, CHR ''a'', CHR 0x0A, CHR ''b'', CHR 0x22],
               literal = Str [CHR ''a'', CHR 0x0A, CHR ''b''], line = 2\<rparr>],
    start = 0, current = 5, lineno = 2, had_error = False, console_error = []\<rparr>"
  by code_simp

theorem token_line_is_line_of_lexeme_end_witness:
  "reaches (new_scanner [CHR 0x22, CHR ''a'', CHR 0x0A, CHR ''b'', CHR 0x22])
     (new_scanner [CHR 0x22, CHR ''a'', CHR 0x0A, CHR ''b'', CHR 0x22]) \<and>
   \<not> isAtEnd (new_scanner [CHR 0x22, CHR ''a'', CHR 0x0A, CHR ''b'', CHR 0x22]) \<and>
   tokens (scanToken ((new_scanner [CHR 0x22, CHR ''a'', CHR 0x0A, CHR ''b'', CHR 0x22])
                        \<lparr>start := 0\<rparr>)) =
     [\<lparr>type = TT STRING, lexeme = [CHR 0x22, CHR ''a'', CHR 0x0A, CHR ''b'', CHR 0x22],
       literal = Str [CHR ''a'', CHR 0x0A, CHR ''b''], line = 2\<rparr>] \<and>
   line_at [CHR 0x22, CHR ''a'', CHR 0x0A, CHR ''b'', CHR 0x22] 0 +
     newlines [CHR 0x22, CHR ''a'', CHR 0x0A, CHR ''b'', CHR 0x22] = 2 \<and>
   line_at [CHR 0x22, CHR ''a'', CHR 0x0A, CHR ''b'', CHR 0x22] 5 = 2 \<and>
   line (last (tokens (scanTokens [CHR 0x22, CHR ''a'', CHR 0x0A, CHR ''b'', CHR 0x22]))) = 2"
proof -
  let ?src = "[CHR 0x22, CHR ''a'', CHR 0x0A, CHR ''b'', CHR 0x22]"
  have r: "reaches (new_scanner ?src) (new_scanner ?src)" by (rule reaches.here)
  have e: "\<not> isAtEnd (new_scanner ?src)" by (simp add: isAtEnd_def)
  from token_line_is_line_of_lexeme_end[OF r e] r e show ?thesis
    by (simp add: multi_line_string_first_iteration Let_def line_at_def)
qed

text \<open>
  C2, as stated, fails on a string literal that holds a newline: the lexeme of the STRING
  token below starts at offset 0, on line 1, and the token's line is 2.
\<close>

theorem token_line_is_not_line_of_lexeme_start:
  "tokens (scanTokens [CHR 0x22, CHR ''a'', CHR 0x0A, CHR ''b'', CHR 0x22]) =
     [\<lparr>type = TT STRING, lexeme = [CHR 0x22, CHR ''a'', CHR 0x0A, CHR ''b'', CHR 0x22],
       literal = Str [CHR ''a'', CHR 0x0A, CHR ''b''], line = 2\<rparr>,
      \<lparr>type = TT EOF, lexeme = [], literal = EmptyObject, line = 2\<rparr>] \<and>
   take 5 (drop 0 [CHR 0x22, CHR ''a'', CHR 0x0A, CHR ''b'', CHR 0x22]) =
     [CHR 0x22, CHR ''a'', CHR 0x0A, CHR ''b'', CHR 0x22] \<and>
   line_at [CHR 0x22, CHR ''a'', CHR 0x0A, CHR ''b'', CHR 0x22] 0 = 1"
  by code_simp

subsection \<open>The literals of the examples\<close>

lemma binade_examples: "binade 123 (Suc 0) = 6" "binade 125 10 = 3" "binade 12 (Suc 0) = 3"
  by (simp_all add: binade_def pow2_def) (simp_all add: floor_log2.simps)

lemma to_binary64_examples:
  "to_binary64 123 (Suc 0) = Finite 123" "to_binary64 125 10 = Finite (25 / 2)"
  "to_binary64 12 (Suc 0) = Finite 12"
  by (simp_all add: to_binary64_def binade_examples Let_def)
     (simp_all add: round_half_even_def pow2_def Let_def)

lemma digits_value_examples:
  "digits_value ''123'' = 123" "digits_value ''125'' = 125" "digits_value ''12'' = 12"
  by (simp_all add: digits_value_def digit_value_def)

lemma parseFloat_123: "parseFloat ''123'' = Finite 123"
proof -
  have tw: "takeWhile is_decimal_digit ''123'' = ''123''"
    and dw: "dropWhile is_decimal_digit ''123'' = []"
    by (simp_all add: is_decimal_digit_def)
  show ?thesis
    unfolding parseFloat_def Let_def tw dw list.case
    by (simp add: digits_value_examples to_binary64_examples del: takeWhile.simps)
qed

lemma parseFloat_12: "parseFloat ''12'' = Finite 12"
proof -
  have tw: "takeWhile is_decimal_digit ''12'' = ''12''"
    and dw: "dropWhile is_decimal_digit ''12'' = []"
    by (simp_all add: is_decimal_digit_def)
  show ?thesis
    unfolding parseFloat_def Let_def tw dw list.case
    by (simp add: digits_value_examples to_binary64_examples del: takeWhile.simps)
qed

lemma parseFloat_12_5: "parseFloat ''12.5'' = Finite (25 / 2)"
proof -
  have tw: "takeWhile is_decimal_digit ''12.5'' = ''12''"
    and dw: "dropWhile is_decimal_digit ''12.5'' = ''.5''"
    and tw2: "takeWhile is_decimal_digit ''5'' = ''5''"
    by (simp_all add: is_decimal_digit_def)
  show ?thesis
    unfolding parseFloat_def Let_def tw dw list.case
    by (simp add: tw2 digits_value_examples to_binary64_examples del: takeWhile.simps)
qed

subsection \<open>Unrolling the main loop\<close>

lemma scan_loop_step:
  "current st < length (source st) \<Longrightarrow>
   scan_loop st = scan_loop (scanToken (st\<lparr>start := current st\<rparr>))"
  by (subst scan_loop.simps) (simp add: isAtEnd_def)

lemma scan_loop_end: "length (source st) \<le> current st \<Longrightarrow> scan_loop st = st"
  by (subst scan_loop.simps) (simp add: isAtEnd_def)

lemma rest_Cons_bound: "rest st = c # r \<Longrightarrow> current st < length (source st)"
  by (cases "current st < length (source st)") (simp_all add: rest_def)

lemmas step_defs = scanToken_def advance_def charAt_def isDigit_def isAlpha_def

subsection \<open>Unexpected characters\<close>

lemma scanToken_unexpected:
  assumes "rest st = c # r"
    "c \<notin> set ''(){},.-+;*!=<>/ ''" "c \<notin> {CHR 0x0D, CHR 0x09, CHR 0x0A, CHR 0x22}"
    "\<not> isDigit [c]" "\<not> isAlpha [c]"
  shows "scanToken (st\<lparr>start := current st\<rparr>) =
    st\<lparr>start := current st, current := current st + 1, had_error := True,
       console_error := console_error st @
         [\<lparr>at_line = lineno st, location = [], message = ''Unexpected character.''\<rparr>]\<rparr>"
  using assms by (simp add: scanToken_def advance_rest error_def report_def)

lemma at_123_scan:
  "scanTokens ''@123'' =
   \<lparr>source = ''@123'',
    tokens = [\<lparr>type = TT NUMBER, lexeme = ''123'', literal = Num (Finite 123), line = 1\<rparr>,
              \<lparr>type = TT EOF, lexeme = [], literal = EmptyObject, line = 1\<rparr>],
    start = 1, current = 4, lineno = 1, had_error = True,
    console_error = [\<lparr>at_line = 1, location = [], message = ''Unexpected character.''\<rparr>]\<rparr>"
proof -
  let ?e = "[\<lparr>at_line = Suc 0, location = [], message = ''Unexpected character.''\<rparr>]"
  let ?s1 = "\<lparr>source = ''@123'', tokens = [], start = 0, current = Suc 0, lineno = Suc 0,
              had_error = True, console_error = ?e\<rparr>"
  let ?s2 = "\<lparr>source = ''@123'',
    tokens = [\<lparr>type = TT NUMBER, lexeme = ''123'', literal = Num (Finite 123), line = Suc 0\<rparr>],
    start = Suc 0, current = 4, lineno = Suc 0, had_error = True, console_error = ?e\<rparr>"
  have a: "scanToken ((new_scanner ''@123'')\<lparr>start := 0\<rparr>) = ?s1"
    by (simp add: step_defs new_scanner_def error_def report_def)
  have nl: "number_lexeme ''23'' = ''23''"
    by (simp add: number_lexeme_def is_decimal_digit_def)
  have b: "scanToken (?s1\<lparr>start := Suc 0\<rparr>) = ?s2"
    by (simp add: step_defs number_closed rest_def nl substring_def addToken_def parseFloat_123)
  have "scan_loop (new_scanner ''@123'') = scan_loop ?s1"
    by (subst scan_loop_step) (simp_all add: a)
  also have "\<dots> = scan_loop ?s2"
    by (subst scan_loop_step) (simp_all add: b[simplified])
  also have "\<dots> = ?s2" by (rule scan_loop_end) simp
  finally show ?thesis by (simp add: scanTokens_def scan_def)
qed

text \<open>
  C6. When the next character matches no lexical rule, the iteration reports one
  \<^verbatim>\<open>Unexpected character.\<close> error at the current line, pushes no token, and leaves the scan
  at the next character, from where the main loop goes on. Scanning \<^verbatim>\<open>@123\<close> reports the
  error at line 1 and then pushes the NUMBER token with the literal 123.
\<close>

theorem unexpected_character_is_reported_and_skipped:
  "(rest st = c # r \<and> c \<notin> set ''(){},.-+;*!=<>/ '' \<and>
    c \<notin> {CHR 0x0D, CHR 0x09, CHR 0x0A, CHR 0x22} \<and> \<not> isDigit [c] \<and> \<not> isAlpha [c] \<longrightarrow>
      scanToken (st\<lparr>start := current st\<rparr>) =
        st\<lparr>start := current st, current := current st + 1, had_error := True,
           console_error := console_error st @
             [\<lparr>at_line = lineno st, location = [], message = ''Unexpected character.''\<rparr>]\<rparr> \<and>
      scan_loop st =
        scan_loop (st\<lparr>start := current st, current := current st + 1, had_error := True,
           console_error := console_error st @
             [\<lparr>at_line = lineno st, location = [], message = ''Unexpected character.''\<rparr>]\<rparr>)) \<and>
   tokens (scanTokens ''@123'') =
     [\<lparr>type = TT NUMBER, lexeme = ''123'', literal = Num (Finite 123), line = 1\<rparr>,
      \<lparr>type = TT EOF, lexeme = [], literal = EmptyObject, line = 1\<rparr>] \<and>
   console_error (scanTokens ''@123'') =
     [\<lparr>at_line = 1, location = [], message = ''Unexpected character.''\<rparr>]"
proof -
  have "scan_loop st = scan_loop (scanToken (st\<lparr>start := current st\<rparr>))" if "rest st = c # r"
    using that by (intro scan_loop_step rest_Cons_bound)
  then show ?thesis
    using scanToken_unexpected[of st c r] by (simp add: at_123_scan)
qed

theorem unexpected_character_is_reported_and_skipped_witness:
  "rest (new_scanner ''@123'') = CHR ''@'' # ''123'' \<and>
   scanToken ((new_scanner ''@123'')\<lparr>start := 0\<rparr>) =
     \<lparr>source = ''@123'', tokens = [], start = 0, current = 1, lineno = 1, had_error = True,
      console_error = [\<lparr>at_line = 1, location = [], message = ''Unexpected character.''\<rparr>]\<rparr>"
  using unexpected_character_is_reported_and_skipped[of "new_scanner ''@123''" "CHR ''@''" "''123''"]
  by (simp add: rest_def new_scanner_def isDigit_def isAlpha_def)

subsection \<open>Comments and newlines\<close>

lemma rest_Cons2:
  assumes "rest st = a # b # r"
  shows "Suc (current st) < length (source st)" "source st ! current st = a"
    "source st ! Suc (current st) = b" "drop (Suc (Suc (current st))) (source st) = r"
proof -
  have l: "length (rest st) = Suc (Suc (length r))" using assms by simp
  then show 1: "Suc (current st) < length (source st)" by (simp add: rest_def)
  then have "rest st = source st ! current st # source st ! Suc (current st) #
      drop (Suc (Suc (current st))) (source st)"
    by (simp add: rest_def Cons_nth_drop_Suc)
  with assms show "source st ! current st = a" "source st ! Suc (current st) = b"
    "drop (Suc (Suc (current st))) (source st) = r" by simp_all
qed

lemma scanToken_comment:
  assumes "rest st = CHR ''/'' # CHR ''/'' # r"
  shows "scanToken (st\<lparr>start := current st\<rparr>) =
    st\<lparr>start := current st,
       current := current st + 2 + length (takeWhile (\<lambda>c. c \<noteq> CHR 0x0A) r)\<rparr>"
  using rest_Cons2[OF assms]
  by (simp add: scanToken_def advance_def charAt_def match_def isAtEnd_def comment_loop_closed
        rest_def)

lemma scanToken_newline:
  assumes "rest st = CHR 0x0A # r"
  shows "scanToken (st\<lparr>start := current st\<rparr>) =
    st\<lparr>start := current st, current := current st + 1, lineno := lineno st + 1\<rparr>"
  using assms by (simp add: scanToken_def advance_rest)

lemma comment_scan:
  "scanTokens ''// comment\<newline>123'' =
   \<lparr>source = ''// comment\<newline>123'',
    tokens = [\<lparr>type = TT NUMBER, lexeme = ''123'', literal = Num (Finite 123), line = 2\<rparr>,
              \<lparr>type = TT EOF, lexeme = [], literal = EmptyObject, line = 2\<rparr>],
    start = 11, current = 14, lineno = 2, had_error = False, console_error = []\<rparr>"
proof -
  let ?src = "''// comment\<newline>123''"
  let ?s1 = "\<lparr>source = ?src, tokens = [], start = 0, current = 10, lineno = Suc 0,
              had_error = False, console_error = []\<rparr>"
  let ?s2 = "\<lparr>source = ?src, tokens = [], start = 10, current = 11, lineno = 2,
              had_error = False, console_error = []\<rparr>"
  let ?s3 = "\<lparr>source = ?src,
    tokens = [\<lparr>type = TT NUMBER, lexeme = ''123'', literal = Num (Finite 123), line = 2\<rparr>],
    start = 11, current = 14, lineno = 2, had_error = False, console_error = []\<rparr>"
  have a: "scanToken ((new_scanner ?src)\<lparr>start := 0\<rparr>) = ?s1"
    using scanToken_comment[of "new_scanner ?src" "'' comment\<newline>123''"]
    by (simp add: rest_def new_scanner_def)
  have b: "scanToken (?s1\<lparr>start := 10\<rparr>) = ?s2"
    using scanToken_newline[of ?s1 "''123''"] by (simp add: rest_def)
  have nl: "number_lexeme ''23'' = ''23''"
    by (simp add: number_lexeme_def is_decimal_digit_def)
  have c: "scanToken (?s2\<lparr>start := 11\<rparr>) = ?s3"
    by (simp add: step_defs number_closed rest_def nl substring_def addToken_def parseFloat_123)
  have "scan_loop (new_scanner ?src) = scan_loop ?s1"
    by (subst scan_loop_step) (simp_all add: a)
  also have "\<dots> = scan_loop ?s2"
    by (subst scan_loop_step) (simp_all add: b[simplified])
  also have "\<dots> = scan_loop ?s3"
    by (subst scan_loop_step) (simp_all add: c[simplified])
  also have "\<dots> = ?s3" by (rule scan_loop_end) simp
  finally show ?thesis by (simp add: scanTokens_def scan_def)
qed

text \<open>
  C7. On two slashes the iteration reads up to, and not including, the next newline (or
  to the end of the source), pushes no token and leaves the line counter alone; the unread
  input then starts with that newline, which the next iteration reads, adding one to the
  line counter. Scanning \<^verbatim>\<open>// comment\<close>, a newline and \<^verbatim>\<open>123\<close> yields the NUMBER token
  123 at line 2, and no other token before EOF.
\<close>

theorem comment_stops_before_newline:
  "(rest st = CHR ''/'' # CHR ''/'' # r \<longrightarrow>
      scanToken (st\<lparr>start := current st\<rparr>) =
        st\<lparr>start := current st,
           current := current st + 2 + length (takeWhile (\<lambda>c. c \<noteq> CHR 0x0A) r)\<rparr> \<and>
      rest (scanToken (st\<lparr>start := current st\<rparr>)) = dropWhile (\<lambda>c. c \<noteq> CHR 0x0A) r) \<and>
   (rest st = CHR ''/'' # CHR ''/'' # body @ CHR 0x0A # r' \<and> CHR 0x0A \<notin> set body \<longrightarrow>
      scan_loop st =
        scan_loop (st\<lparr>start := current st + 2 + length body,
                       current := current st + 3 + length body,
                       lineno := lineno st + 1\<rparr>)) \<and>
   tokens (scanTokens ''// comment\<newline>123'') =
     [\<lparr>type = TT NUMBER, lexeme = ''123'', literal = Num (Finite 123), line = 2\<rparr>,
      \<lparr>type = TT EOF, lexeme = [], literal = EmptyObject, line = 2\<rparr>]"
proof -
  have 1: "rest (scanToken (st\<lparr>start := current st\<rparr>)) = dropWhile (\<lambda>c. c \<noteq> CHR 0x0A) r"
    if h: "rest st = CHR ''/'' # CHR ''/'' # r" for r
  proof -
    have "rest (scanToken (st\<lparr>start := current st\<rparr>)) =
        drop (2 + length (takeWhile (\<lambda>c. c \<noteq> CHR 0x0A) r)) (rest st)"
      using rest_current[of st "2 + length (takeWhile (\<lambda>c. c \<noteq> CHR 0x0A) r)"]
      by (simp add: scanToken_comment[OF h] rest_def)
    then show ?thesis by (simp add: h drop_takeWhile_length)
  qed
  have 2: "scan_loop st =
        scan_loop (st\<lparr>start := current st + 2 + length body,
                       current := current st + 3 + length body,
                       lineno := lineno st + 1\<rparr>)"
    if h: "rest st = CHR ''/'' # CHR ''/'' # body @ CHR 0x0A # r'" and b: "CHR 0x0A \<notin> set body"
  proof -
    let ?s1 = "st\<lparr>start := current st, current := current st + 2 + length body\<rparr>"
    have t: "takeWhile (\<lambda>c. c \<noteq> CHR 0x0A) (body @ CHR 0x0A # r') = body"
      using b by (auto simp: takeWhile_tail)
    have s1: "scanToken (st\<lparr>start := current st\<rparr>) = ?s1"
      using scanToken_comment[OF h] by (simp add: t)
    have r1: "rest ?s1 = CHR 0x0A # r'"
    proof -
      have "dropWhile (\<lambda>c. c \<noteq> CHR 0x0A) (body @ CHR 0x0A # r') = CHR 0x0A # r'"
        using b by (auto simp: dropWhile_append3)
      with 1[OF h] show ?thesis by (simp add: s1)
    qed
    have "scan_loop st = scan_loop ?s1"
      using scan_loop_step[OF rest_Cons_bound[OF h]] by (simp add: s1)
    also have "\<dots> = scan_loop (scanToken (?s1\<lparr>start := current ?s1\<rparr>))"
      by (rule scan_loop_step[OF rest_Cons_bound[OF r1]])
    also have "\<dots> = scan_loop (?s1\<lparr>start := current ?s1, current := current ?s1 + 1,
        lineno := lineno ?s1 + 1\<rparr>)"
      by (simp only: scanToken_newline[OF r1])
    finally show ?thesis by (simp add: numeral_3_eq_3)
  qed
  show ?thesis using 1[of r] 2 scanToken_comment[of st r] by (simp add: comment_scan)
qed

theorem comment_stops_before_newline_witness:
  "rest (new_scanner ''// comment\<newline>123'') = CHR ''/'' # CHR ''/'' # '' comment'' @ CHR 0x0A # ''123'' \<and>
   scanToken ((new_scanner ''// comment\<newline>123'')\<lparr>start := 0\<rparr>) =
     \<lparr>source = ''// comment\<newline>123'', tokens = [], start = 0, current = 10, lineno = 1,
      had_error = False, console_error = []\<rparr> \<and>
   rest (scanToken ((new_scanner ''// comment\<newline>123'')\<lparr>start := 0\<rparr>)) = ''\<newline>123'' \<and>
   scan_loop (new_scanner ''// comment\<newline>123'') =
     scan_loop \<lparr>source = ''// comment\<newline>123'', tokens = [], start = 10, current = 11,
                lineno = 2, had_error = False, console_error = []\<rparr>"
  using comment_stops_before_newline[of "new_scanner ''// comment\<newline>123''"
      "'' comment\<newline>123''" "'' comment''" "''123''"]
  by (simp add: rest_def new_scanner_def eval_nat_numeral)

subsection \<open>Numbers\<close>

lemma isDigit_not_isAlpha: "isDigit [d] \<Longrightarrow> \<not> isAlpha [d]"
proof
  assume d: "isDigit [d]" and a: "isAlpha [d]"
  from d have 9: "d \<le> CHR ''9''" by (auto simp: isDigit_def)
  from a consider "CHR ''a'' \<le> d" | "CHR ''A'' \<le> d" | "d = CHR ''_''"
    by (auto simp: isAlpha_def)
  then show False
  proof cases
    case 1
    from 1 9 have "CHR ''a'' \<le> CHR ''9''" by (rule order_trans)
    then show False by simp
  next
    case 2
    from 2 9 have "CHR ''A'' \<le> CHR ''9''" by (rule order_trans)
    then show False by simp
  next
    case 3
    with 9 show False by simp
  qed
qed

lemma number_lexeme_Cons:
  assumes "is_decimal_digit d"
  shows "number_lexeme (d # r) = d # number_lexeme r"
proof -
  have f: "takeWhile is_decimal_digit (d # r) = d # takeWhile is_decimal_digit r"
    "dropWhile is_decimal_digit (d # r) = dropWhile is_decimal_digit r"
    using assms by simp_all
  show ?thesis
  proof (cases "dropWhile is_decimal_digit r")
    case Nil
    show ?thesis unfolding number_lexeme_def Let_def f by (simp only: Nil list.case)
  next
    case (Cons c r1)
    note c = this
    show ?thesis
    proof (cases r1)
      case Nil
      show ?thesis unfolding number_lexeme_def Let_def f by (simp only: c Nil list.case)
    next
      case (Cons d' r2)
      show ?thesis unfolding number_lexeme_def Let_def f
        by (simp only: c Cons list.case) simp
    qed
  qed
qed

lemma scanToken_number:
  assumes "rest st = d # r" "isDigit [d]"
  shows "scanToken (st\<lparr>start := current st\<rparr>) =
    st\<lparr>start := current st, current := current st + length (number_lexeme (rest st)),
       tokens := tokens st @
         [\<lparr>type = TT NUMBER, lexeme = number_lexeme (rest st),
           literal = Num (parseFloat (number_lexeme (rest st))), line = lineno st\<rparr>]\<rparr>"
proof -
  let ?s0 = "st\<lparr>start := current st\<rparr>"
  let ?s1 = "st\<lparr>start := current st, current := current st + 1\<rparr>"
  have a: "advance ?s0 = ([d], ?s1)" by (simp add: advance_rest assms)
  have r1: "rest ?s1 = r" using rest_current[of ?s0 1] assms by simp
  have lx: "number_lexeme (rest st) = d # number_lexeme r"
    using assms by (simp add: number_lexeme_Cons isDigit_single)
  obtain r2 where "rest st = number_lexeme (rest st) @ r2" using number_lexeme_prefix ..
  then have tk: "take (length (number_lexeme (rest st))) (rest st) = number_lexeme (rest st)"
    by (metis append_eq_conv_conj)
  have le: "current st \<le> length (source st)" using rest_Cons_bound[OF assms(1)] by simp
  have sub: "substring (source st) (current st) (current st + length (number_lexeme (rest st)))
      = number_lexeme (rest st)"
    using substring_rest[OF le] tk by (simp add: rest_def)
  from a have "scanToken ?s0 = number ?s1"
  proof (cases rule: scanToken_cases)
    case num
    show ?thesis by (rule num(2))
  qed (use assms(2) isDigit_not_isAlpha[OF assms(2)] in \<open>auto simp: isDigit_def\<close>)
  also have "\<dots> = addToken (TT NUMBER)
      (Some (Num (parseFloat (substring (source ?s1) (start ?s1)
         (current ?s1 + length (number_lexeme (rest ?s1)))))))
      (?s1\<lparr>current := current ?s1 + length (number_lexeme (rest ?s1))\<rparr>)"
    by (simp only: number_closed Let_def)
  also have "\<dots> = addToken (TT NUMBER)
      (Some (Num (parseFloat (substring (source ?s1) (start ?s1)
         (current ?s1 + length (number_lexeme r))))))
      (?s1\<lparr>current := current ?s1 + length (number_lexeme r)\<rparr>)"
    by (simp only: r1)
  finally show ?thesis
    using sub by (simp add: lx addToken_def)
qed

lemma number_lexeme_examples:
  "number_lexeme ''12.5'' = ''12.5''" "number_lexeme ''12.'' = ''12''"
  by (simp_all add: number_lexeme_def is_decimal_digit_def)

lemma number_scans:
  "tokens (scanTokens ''12.5'') =
     [\<lparr>type = TT NUMBER, lexeme = ''12.5'', literal = Num (Finite (25 / 2)), line = 1\<rparr>,
      \<lparr>type = TT EOF, lexeme = [], literal = EmptyObject, line = 1\<rparr>]"
  "tokens (scanTokens ''12.'') =
     [\<lparr>type = TT NUMBER, lexeme = ''12'', literal = Num (Finite 12), line = 1\<rparr>,
      \<lparr>type = TT DOT, lexeme = ''.'', literal = EmptyObject, line = 1\<rparr>,
      \<lparr>type = TT EOF, lexeme = [], literal = EmptyObject, line = 1\<rparr>]"
proof -
  let ?a1 = "\<lparr>source = ''12.5'',
      tokens = [\<lparr>type = TT NUMBER, lexeme = ''12.5'', literal = Num (Finite (25 / 2)),
                 line = Suc 0\<rparr>],
      start = 0, current = 4, lineno = Suc 0, had_error = False, console_error = []\<rparr>"
  have a: "scanToken ((new_scanner ''12.5'')\<lparr>start := 0\<rparr>) = ?a1"
    using scanToken_number[of "new_scanner ''12.5''" "CHR ''1''" "''2.5''"]
    by (simp add: rest_def new_scanner_def isDigit_def number_lexeme_examples parseFloat_12_5)
  have "scan_loop (new_scanner ''12.5'') = scan_loop ?a1"
    by (subst scan_loop_step) (simp_all add: a)
  also have "\<dots> = ?a1" by (rule scan_loop_end) simp
  finally show "tokens (scanTokens ''12.5'') =
     [\<lparr>type = TT NUMBER, lexeme = ''12.5'', literal = Num (Finite (25 / 2)), line = 1\<rparr>,
      \<lparr>type = TT EOF, lexeme = [], literal = EmptyObject, line = 1\<rparr>]"
    by (simp add: scanTokens_def)
  let ?b1 = "\<lparr>source = ''12.'',
      tokens = [\<lparr>type = TT NUMBER, lexeme = ''12'', literal = Num (Finite 12), line = Suc 0\<rparr>],
      start = 0, current = 2, lineno = Suc 0, had_error = False, console_error = []\<rparr>"
  let ?b2 = "\<lparr>source = ''12.'',
      tokens = [\<lparr>type = TT NUMBER, lexeme = ''12'', literal = Num (Finite 12), line = Suc 0\<rparr>,
                \<lparr>type = TT DOT, lexeme = ''.'', literal = EmptyObject, line = Suc 0\<rparr>],
      start = 2, current = 3, lineno = Suc 0, had_error = False, console_error = []\<rparr>"
  have b: "scanToken ((new_scanner ''12.'')\<lparr>start := 0\<rparr>) = ?b1"
    using scanToken_number[of "new_scanner ''12.''" "CHR ''1''" "''2.''"]
    by (simp add: rest_def new_scanner_def isDigit_def number_lexeme_examples parseFloat_12)
  have c: "scanToken (?b1\<lparr>start := 2\<rparr>) = ?b2"
    by (simp add: step_defs addToken_def substring_def)
  have "scan_loop (new_scanner ''12.'') = scan_loop ?b1"
    by (subst scan_loop_step) (simp_all add: b)
  also have "\<dots> = scan_loop ?b2"
    by (subst scan_loop_step) (simp_all add: c[simplified])
  also have "\<dots> = ?b2" by (rule scan_loop_end) simp
  finally show "tokens (scanTokens ''12.'') =
     [\<lparr>type = TT NUMBER, lexeme = ''12'', literal = Num (Finite 12), line = 1\<rparr>,
      \<lparr>type = TT DOT, lexeme = ''.'', literal = EmptyObject, line = 1\<rparr>,
      \<lparr>type = TT EOF, lexeme = [], literal = EmptyObject, line = 1\<rparr>]"
    by (simp add: scanTokens_def)
qed

lemma number_lexeme_integer:
  assumes "\<forall>c\<in>set ds. is_decimal_digit c" "\<forall>c r''. r' = c # r'' \<longrightarrow> \<not> is_decimal_digit c"
    "\<forall>d' r''. r' = CHR ''.'' # d' # r'' \<longrightarrow> \<not> is_decimal_digit d'"
  shows "number_lexeme (ds @ r') = ds"
proof -
  have t: "takeWhile is_decimal_digit (ds @ r') = ds"
    using assms(1,2) by (cases r') (simp_all add: takeWhile_append2)
  have d: "dropWhile is_decimal_digit (ds @ r') = r'"
    using assms(1,2) by (cases r') (simp_all add: dropWhile_append2)
  show ?thesis
    unfolding number_lexeme_def Let_def t d using assms(3) by (auto split: list.splits)
qed

lemma number_lexeme_fraction:
  assumes "\<forall>c\<in>set ds. is_decimal_digit c" "is_decimal_digit d'"
    "\<forall>c\<in>set fs. is_decimal_digit c" "\<forall>c r'''. r'' = c # r''' \<longrightarrow> \<not> is_decimal_digit c"
  shows "number_lexeme (ds @ CHR ''.'' # d' # fs @ r'') = ds @ CHR ''.'' # d' # fs"
proof -
  have dot: "\<not> is_decimal_digit CHR ''.''" by (simp add: is_decimal_digit_def)
  have t: "takeWhile is_decimal_digit (ds @ CHR ''.'' # d' # fs @ r'') = ds"
    using assms(1) dot by (simp add: takeWhile_append2)
  have d: "dropWhile is_decimal_digit (ds @ CHR ''.'' # d' # fs @ r'') = CHR ''.'' # d' # fs @ r''"
    using assms(1) dot by (simp add: dropWhile_append2)
  have f: "takeWhile is_decimal_digit (fs @ r'') = fs"
    using assms(3,4) by (cases r'') (simp_all add: takeWhile_append2)
  show ?thesis
    unfolding number_lexeme_def Let_def t d using assms(2) f by simp
qed

lemma scanToken_dot:
  assumes "rest st = CHR ''.'' # u"
  shows "scanToken (st\<lparr>start := current st\<rparr>) =
    st\<lparr>start := current st, current := current st + 1,
       tokens := tokens st @
         [\<lparr>type = TT DOT, lexeme = ''.'', literal = EmptyObject, line = lineno st\<rparr>]\<rparr>"
proof -
  have le: "current st \<le> length (source st)" using rest_Cons_bound[OF assms] by simp
  have "substring (source st) (current st) (current st + 1) = ''.''"
    using substring_rest[OF le, of 1] assms by (simp add: rest_def)
  then show ?thesis
    using assms by (simp add: scanToken_def advance_rest addToken_def)
qed

text \<open>A number whose digits are followed by a dot and no digit: the dot is the next token.\<close>

lemma number_then_dot:
  assumes "rest st = ds @ CHR ''.'' # u" "ds \<noteq> []" "\<forall>c\<in>set ds. is_decimal_digit c"
    "\<forall>c u'. u = c # u' \<longrightarrow> \<not> is_decimal_digit c"
  shows "scan_loop st =
    scan_loop (st\<lparr>start := current st + length ds, current := current st + length ds + 1,
       tokens := tokens st @
         [\<lparr>type = TT NUMBER, lexeme = ds, literal = Num (parseFloat ds), line = lineno st\<rparr>,
          \<lparr>type = TT DOT, lexeme = ''.'', literal = EmptyObject, line = lineno st\<rparr>]\<rparr>)"
proof -
  obtain d ds' where ds: "ds = d # ds'" using assms(2) by (cases ds) auto
  then have r: "rest st = d # (ds' @ CHR ''.'' # u)" and d: "isDigit [d]"
    using assms(1,3) by (simp_all add: isDigit_single)
  have dot: "\<not> is_decimal_digit CHR ''.''" by (simp add: is_decimal_digit_def)
  have lx: "number_lexeme (rest st) = ds"
    unfolding assms(1) using assms(3,4) dot by (intro number_lexeme_integer) auto
  let ?s1 = "st\<lparr>start := current st, current := current st + length ds,
       tokens := tokens st @
         [\<lparr>type = TT NUMBER, lexeme = ds, literal = Num (parseFloat ds), line = lineno st\<rparr>]\<rparr>"
  have s1: "scanToken (st\<lparr>start := current st\<rparr>) = ?s1"
    using scanToken_number[OF r d] by (simp only: lx)
  have "rest ?s1 = drop (length ds) (rest st)"
    using rest_current[of st "length ds"] by (simp add: rest_def)
  then have r1: "rest ?s1 = CHR ''.'' # u" by (simp add: assms(1))
  have "scan_loop st = scan_loop ?s1"
    using scan_loop_step[OF rest_Cons_bound[OF r]] by (simp only: s1)
  also have "\<dots> = scan_loop (scanToken (?s1\<lparr>start := current ?s1\<rparr>))"
    by (rule scan_loop_step[OF rest_Cons_bound[OF r1]])
  also have "\<dots> = scan_loop (?s1\<lparr>start := current ?s1, current := current ?s1 + 1,
       tokens := tokens ?s1 @
         [\<lparr>type = TT DOT, lexeme = ''.'', literal = EmptyObject, line = lineno ?s1\<rparr>]\<rparr>)"
    by (simp only: scanToken_dot[OF r1])
  finally show ?thesis by simp
qed

text \<open>
  C8. On a digit the iteration pushes one NUMBER token whose lexeme is \<open>number_lexeme\<close> of
  the unread input, with \<^verbatim>\<open>parseFloat\<close> of the lexeme as literal, and reads exactly that
  lexeme. \<open>number_lexeme\<close> is a maximal run of digits when no dot followed by a digit comes
  next (a trailing dot stays unread), and the run, the dot and the maximal run of digits
  after it otherwise. Whatever follows it, a dot that comes after the digits and is not
  followed by a digit is read by the next iteration, which pushes a DOT token for it.
  Scanning \<^verbatim>\<open>12.5\<close> yields one NUMBER token with literal 12.5; scanning \<^verbatim>\<open>12.\<close> yields a
  NUMBER token with literal 12 and a DOT token.
\<close>

theorem number_lexing:
  "(rest st = d # r \<and> isDigit [d] \<longrightarrow>
      scanToken (st\<lparr>start := current st\<rparr>) =
        st\<lparr>start := current st, current := current st + length (number_lexeme (rest st)),
           tokens := tokens st @
             [\<lparr>type = TT NUMBER, lexeme = number_lexeme (rest st),
               literal = Num (parseFloat (number_lexeme (rest st))), line = lineno st\<rparr>]\<rparr>) \<and>
   ((\<forall>c\<in>set ds. is_decimal_digit c) \<and> (\<forall>c r''. r' = c # r'' \<longrightarrow> \<not> is_decimal_digit c) \<and>
    (\<forall>d' r''. r' = CHR ''.'' # d' # r'' \<longrightarrow> \<not> is_decimal_digit d') \<longrightarrow>
      number_lexeme (ds @ r') = ds) \<and>
   ((\<forall>c\<in>set ds. is_decimal_digit c) \<and> is_decimal_digit d' \<and> (\<forall>c\<in>set fs. is_decimal_digit c) \<and>
    (\<forall>c r'''. r'' = c # r''' \<longrightarrow> \<not> is_decimal_digit c) \<longrightarrow>
      number_lexeme (ds @ CHR ''.'' # d' # fs @ r'') = ds @ CHR ''.'' # d' # fs) \<and>
   (rest st = ds @ CHR ''.'' # u \<and> ds \<noteq> [] \<and> (\<forall>c\<in>set ds. is_decimal_digit c) \<and>
    (\<forall>c u'. u = c # u' \<longrightarrow> \<not> is_decimal_digit c) \<longrightarrow>
      scan_loop st =
        scan_loop (st\<lparr>start := current st + length ds, current := current st + length ds + 1,
           tokens := tokens st @
             [\<lparr>type = TT NUMBER, lexeme = ds, literal = Num (parseFloat ds), line = lineno st\<rparr>,
              \<lparr>type = TT DOT, lexeme = ''.'', literal = EmptyObject, line = lineno st\<rparr>]\<rparr>)) \<and>
   tokens (scanTokens ''12.5'') =
     [\<lparr>type = TT NUMBER, lexeme = ''12.5'', literal = Num (Finite (25 / 2)), line = 1\<rparr>,
      \<lparr>type = TT EOF, lexeme = [], literal = EmptyObject, line = 1\<rparr>] \<and>
   tokens (scanTokens ''12.'') =
     [\<lparr>type = TT NUMBER, lexeme = ''12'', literal = Num (Finite 12), line = 1\<rparr>,
      \<lparr>type = TT DOT, lexeme = ''.'', literal = EmptyObject, line = 1\<rparr>,
      \<lparr>type = TT EOF, lexeme = [], literal = EmptyObject, line = 1\<rparr>]"
  using scanToken_number[of st d r] number_lexeme_integer[of ds r']
    number_lexeme_fraction[of ds d' fs r''] number_then_dot[of st ds u] number_scans
  by blast

theorem number_lexing_witness:
  "rest (new_scanner ''12.a'') = CHR ''1'' # ''2.a'' \<and> isDigit ''1'' \<and>
   rest (new_scanner ''12.a'') = ''12'' @ CHR ''.'' # ''a'' \<and>
   scanToken ((new_scanner ''12.a'')\<lparr>start := 0\<rparr>) =
     \<lparr>source = ''12.a'',
      tokens = [\<lparr>type = TT NUMBER, lexeme = ''12'', literal = Num (Finite 12), line = 1\<rparr>],
      start = 0, current = 2, lineno = 1, had_error = False, console_error = []\<rparr> \<and>
   scan_loop (new_scanner ''12.a'') =
     scan_loop \<lparr>source = ''12.a'',
      tokens = [\<lparr>type = TT NUMBER, lexeme = ''12'', literal = Num (Finite 12), line = 1\<rparr>,
                \<lparr>type = TT DOT, lexeme = ''.'', literal = EmptyObject, line = 1\<rparr>],
      start = 2, current = 3, lineno = 1, had_error = False, console_error = []\<rparr> \<and>
   number_lexeme (''12'' @ ''.a'') = ''12'' \<and>
   number_lexeme (''12'' @ CHR ''.'' # CHR ''5'' # [] @ []) = ''12'' @ CHR ''.'' # CHR ''5'' # []"
proof -
  have h: "rest (new_scanner ''12.a'') = CHR ''1'' # ''2.a''" "isDigit ''1''"
    "rest (new_scanner ''12.a'') = ''12'' @ CHR ''.'' # ''a''" "''12'' \<noteq> []"
    by (simp_all add: rest_def new_scanner_def isDigit_def)
  have d: "\<forall>c\<in>set ''12''. is_decimal_digit c" "is_decimal_digit CHR ''5''"
    "\<forall>c r''. ''.a'' = c # r'' \<longrightarrow> \<not> is_decimal_digit c"
    "\<forall>d' r''. ''.a'' = CHR ''.'' # d' # r'' \<longrightarrow> \<not> is_decimal_digit d'"
    "\<forall>c\<in>set []. is_decimal_digit c" "\<forall>c r'''. [] = c # r''' \<longrightarrow> \<not> is_decimal_digit c"
    "\<forall>c u'. ''a'' = c # u' \<longrightarrow> \<not> is_decimal_digit c"
    by (simp_all add: is_decimal_digit_def)
  from number_lexing[of "new_scanner ''12.a''" "CHR ''1''" "''2.a''" "''12''" "''.a''" "CHR ''5''"
      "[]" "[]" "''a''"] h d
  have "scanToken ((new_scanner ''12.a'')\<lparr>start := current (new_scanner ''12.a'')\<rparr>) =
        (new_scanner ''12.a'')\<lparr>start := current (new_scanner ''12.a''),
           current := current (new_scanner ''12.a'') +
             length (number_lexeme (rest (new_scanner ''12.a''))),
           tokens := tokens (new_scanner ''12.a'') @
             [\<lparr>type = TT NUMBER, lexeme = number_lexeme (rest (new_scanner ''12.a'')),
               literal = Num (parseFloat (number_lexeme (rest (new_scanner ''12.a'')))),
               line = lineno (new_scanner ''12.a'')\<rparr>]\<rparr>"
    "number_lexeme (''12'' @ ''.a'') = ''12''"
    "number_lexeme (''12'' @ CHR ''.'' # CHR ''5'' # [] @ []) = ''12'' @ CHR ''.'' # CHR ''5'' # []"
    "scan_loop (new_scanner ''12.a'') =
        scan_loop ((new_scanner ''12.a'')\<lparr>start := current (new_scanner ''12.a'') + length ''12'',
           current := current (new_scanner ''12.a'') + length ''12'' + 1,
           tokens := tokens (new_scanner ''12.a'') @
             [\<lparr>type = TT NUMBER, lexeme = ''12'', literal = Num (parseFloat ''12''),
               line = lineno (new_scanner ''12.a'')\<rparr>,
              \<lparr>type = TT DOT, lexeme = ''.'', literal = EmptyObject,
               line = lineno (new_scanner ''12.a'')\<rparr>]\<rparr>)"
    by blast+
  then show ?thesis
    using h by (simp add: rest_def new_scanner_def parseFloat_12 eval_nat_numeral)
qed

subsection \<open>Unterminated strings\<close>

lemma scanToken_string_unterminated:
  assumes "rest st = CHR 0x22 # r" "CHR 0x22 \<notin> set r"
  shows "scanToken (st\<lparr>start := current st\<rparr>) =
    st\<lparr>start := current st, current := length (source st),
       lineno := lineno st + newlines r, had_error := True,
       console_error := console_error st @
         [\<lparr>at_line = lineno st + newlines r, location = [],
           message = ''Unterminated string.''\<rparr>]\<rparr>"
proof -
  let ?s0 = "st\<lparr>start := current st\<rparr>"
  let ?s1 = "st\<lparr>start := current st, current := current st + 1\<rparr>"
  have r1: "rest ?s1 = r" using rest_current[of ?s0 1] assms by simp
  have le: "current ?s1 \<le> length (source ?s1)" using rest_Cons_bound[OF assms(1)] by simp
  have "scanToken ?s0 = string ?s1" by (simp add: scanToken_def advance_rest assms)
  also have "\<dots> = (let l = lineno ?s1 + length (filter (\<lambda>c. c = CHR 0x0A) (rest ?s1))
      in ?s1\<lparr>current := length (source ?s1), lineno := l, had_error := True,
            console_error := console_error ?s1 @
              [\<lparr>at_line = l, location = [], message = ''Unterminated string.''\<rparr>]\<rparr>)"
  proof (rule string_unterminated[OF le])
    show "CHR 0x22 \<notin> set (rest ?s1)" unfolding r1 by (rule assms(2))
  qed
  finally show ?thesis by (simp only: r1 Let_def) (simp add: newlines_def)
qed

lemma reaches_unterminated:
  assumes "reaches st0 st"
    "\<forall>d\<in>set (console_error st0). message d \<noteq> ''Unterminated string.''"
  shows "isAtEnd st \<or> (\<forall>d\<in>set (console_error st). message d \<noteq> ''Unterminated string.'')"
  using assms
proof (induction rule: reaches.induct)
  case (here st)
  then show ?case by simp
next
  case (iteration st st')
  then have old: "\<forall>d\<in>set (console_error st'). message d \<noteq> ''Unterminated string.''" by simp
  from reported_scanToken[of "st'\<lparr>start := current st'\<rparr>"] old show ?case
    by (auto simp: reported_def)
qed

text \<open>
  C3. When the scan comes to an opening quote with no quote after it, it pushes no more
  token but EOF: the tokens are those pushed before the quote, then EOF. The rest of the
  input is read, one \<^verbatim>\<open>Unterminated string.\<close> error is reported, at the line where the input
  ends, and it is the only such error of the scan.
\<close>

theorem unterminated_string_pushes_no_token:
  assumes "reaches (new_scanner src) st" "rest st = CHR 0x22 # r" "CHR 0x22 \<notin> set r"
  shows "tokens (scanTokens src) =
           tokens st @ [\<lparr>type = TT EOF, lexeme = [], literal = EmptyObject,
                          line = lineno st + newlines r\<rparr>] \<and>
         console_error (scanTokens src) =
           console_error st @ [\<lparr>at_line = lineno st + newlines r, location = [],
                                  message = ''Unterminated string.''\<rparr>] \<and>
         length (filter (\<lambda>d. message d = ''Unterminated string.'')
                   (console_error (scanTokens src))) = 1 \<and>
         had_error (scanTokens src)"
proof -
  let ?s' = "st\<lparr>start := current st, current := length (source st),
       lineno := lineno st + newlines r, had_error := True,
       console_error := console_error st @
         [\<lparr>at_line = lineno st + newlines r, location = [],
           message = ''Unterminated string.''\<rparr>]\<rparr>"
  have "scan_loop (new_scanner src) = scan_loop st"
    using reaches_scan_loop[OF assms(1)] by simp
  also have "\<dots> = scan_loop (scanToken (st\<lparr>start := current st\<rparr>))"
    by (rule scan_loop_step[OF rest_Cons_bound[OF assms(2)]])
  also have "\<dots> = scan_loop ?s'" by (simp only: scanToken_string_unterminated[OF assms(2,3)])
  also have "\<dots> = ?s'" by (rule scan_loop_end) simp
  finally have f: "scan_loop (new_scanner src) = ?s'" .
  have "\<not> isAtEnd st" using rest_Cons_bound[OF assms(2)] by (simp add: isAtEnd_def)
  with reaches_unterminated[OF assms(1)]
  have "\<forall>d\<in>set (console_error st). message d \<noteq> ''Unterminated string.''" by simp
  then have "filter (\<lambda>d. message d = ''Unterminated string.'') (console_error st) = []"
    by (simp add: filter_empty_conv)
  then show ?thesis by (simp add: scanTokens_def f)
qed

theorem unterminated_string_pushes_no_token_witness:
  "reaches (new_scanner [CHR 0x22, CHR ''a'', CHR ''b'', CHR ''c''])
     (new_scanner [CHR 0x22, CHR ''a'', CHR ''b'', CHR ''c'']) \<and>
   rest (new_scanner [CHR 0x22, CHR ''a'', CHR ''b'', CHR ''c'']) = CHR 0x22 # ''abc'' \<and>
   CHR 0x22 \<notin> set ''abc'' \<and>
   tokens (scanTokens [CHR 0x22, CHR ''a'', CHR ''b'', CHR ''c'']) =
     [\<lparr>type = TT EOF, lexeme = [], literal = EmptyObject, line = 1\<rparr>] \<and>
   console_error (scanTokens [CHR 0x22, CHR ''a'', CHR ''b'', CHR ''c'']) =
     [\<lparr>at_line = 1, location = [], message = ''Unterminated string.''\<rparr>] \<and>
   length (filter (\<lambda>d. message d = ''Unterminated string.'')
             (console_error (scanTokens [CHR 0x22, CHR ''a'', CHR ''b'', CHR ''c'']))) = 1"
proof -
  let ?src = "[CHR 0x22, CHR ''a'', CHR ''b'', CHR ''c'']"
  have h: "reaches (new_scanner ?src) (new_scanner ?src)"
    "rest (new_scanner ?src) = CHR 0x22 # ''abc''" "CHR 0x22 \<notin> set ''abc''"
    by (simp_all add: reaches.here rest_def)
  from unterminated_string_pushes_no_token[OF h] h show ?thesis by simp
qed

subsection \<open>Identifiers and reserved words\<close>

lemma keywords_at_own: "map_of keywords_own text = Some k \<Longrightarrow> keywords_at text = Some (TT k)"
  by (simp add: keywords_at_def)

lemma keywords_at_inherited:
  assumes "text \<in> set object_prototype_names"
  shows "keywords_at text = Some (ObjectPrototype text)"
proof -
  have "\<forall>t\<in>set object_prototype_names. keywords_at t = Some (ObjectPrototype t)"
    by (simp add: object_prototype_names_def keywords_at_def keywords_own_def)
  with assms show ?thesis by blast
qed

lemma keywords_at_undefined:
  "map_of keywords_own text = None \<Longrightarrow> text \<notin> set object_prototype_names \<Longrightarrow>
   keywords_at text = None"
  by (simp add: keywords_at_def)

lemma or_orchid_scan:
  "tokens (scanTokens ''or orchid'') =
     [\<lparr>type = TT OR, lexeme = ''or'', literal = EmptyObject, line = 1\<rparr>,
      \<lparr>type = TT IDENTIFIER, lexeme = ''orchid'', literal = EmptyObject, line = 1\<rparr>,
      \<lparr>type = TT EOF, lexeme = [], literal = EmptyObject, line = 1\<rparr>]"
  by code_simp

text \<open>
  C9 at \<^verbatim>\<open>toString\<close>: the lexeme is no reserved word, and the token pushed for it does not
  have the type IDENTIFIER. The lookup \<^verbatim>\<open>keywords[text]\<close> finds the method that the table
  inherits from \<^verbatim>\<open>Object.prototype\<close>, which is not \<^verbatim>\<open>undefined\<close>, and \<^verbatim>\<open>identifier\<close>
  stores it as the type.
\<close>

theorem inherited_property_is_not_IDENTIFIER:
  "map_of keywords_own ''toString'' = None \<and>
   tokens (scanTokens ''toString'') =
     [\<lparr>type = ObjectPrototype ''toString'', lexeme = ''toString'', literal = EmptyObject,
       line = 1\<rparr>,
      \<lparr>type = TT EOF, lexeme = [], literal = EmptyObject, line = 1\<rparr>] \<and>
   type (hd (tokens (scanTokens ''toString''))) \<noteq> TT IDENTIFIER"
  by code_simp

subsection \<open>Scanning a text that follows another\<close>

text \<open>
  \<open>shift P k T D h st\<close> is the state \<open>st\<close> of a scan of a text, seen as a state of the scan
  of that text with \<open>P\<close> before it: the offsets move by the length of \<open>P\<close>, the lines by
  \<open>k\<close>, and the tokens \<open>T\<close>, the errors \<open>D\<close> and the flag \<open>h\<close> of the scan of \<open>P\<close> come
  first.
\<close>

definition shift_line :: "nat \<Rightarrow> Token \<Rightarrow> Token" where
  "shift_line k t = t\<lparr>line := line t + k\<rparr>"

definition shift_at_line :: "nat \<Rightarrow> diagnostic \<Rightarrow> diagnostic" where
  "shift_at_line k d = d\<lparr>at_line := at_line d + k\<rparr>"

definition shift ::
  "string \<Rightarrow> nat \<Rightarrow> Token list \<Rightarrow> diagnostic list \<Rightarrow> bool \<Rightarrow> scan_state \<Rightarrow> scan_state" where
  "shift P k T D h st =
     \<lparr>source = P @ source st, tokens = T @ map (shift_line k) (tokens st),
      start = length P + start st, current = length P + current st,
      lineno = lineno st + k, had_error = (h \<or> had_error st),
      console_error = D @ map (shift_at_line k) (console_error st)\<rparr>"

lemma charAt_shift: "charAt (P @ s) (length P + i) = charAt s i"
  by (simp add: charAt_def nth_append)

lemma substring_shift: "substring (P @ s) (length P + a) (length P + b) = substring s a b"
proof -
  have "min (length P + a) (length P + length s) = length P + min a (length s)"
    "min (length P + b) (length P + length s) = length P + min b (length s)"
    by simp_all
  then show ?thesis
    by (simp add: substring_def Let_def)
       (simp add: min_def max_def)
qed

lemma shift_fields [simp]:
  "source (shift P k T D h st) = P @ source st"
  "tokens (shift P k T D h st) = T @ map (shift_line k) (tokens st)"
  "start (shift P k T D h st) = length P + start st"
  "current (shift P k T D h st) = length P + current st"
  "lineno (shift P k T D h st) = lineno st + k"
  "had_error (shift P k T D h st) = (h \<or> had_error st)"
  "console_error (shift P k T D h st) = D @ map (shift_at_line k) (console_error st)"
  by (simp_all add: shift_def)

lemma shift_updates:
  "(shift P k T D h st)\<lparr>current := length P + n\<rparr> = shift P k T D h (st\<lparr>current := n\<rparr>)"
  "(shift P k T D h st)\<lparr>start := length P + n\<rparr> = shift P k T D h (st\<lparr>start := n\<rparr>)"
  "(shift P k T D h st)\<lparr>lineno := l + k\<rparr> = shift P k T D h (st\<lparr>lineno := l\<rparr>)"
  by (simp_all add: shift_def)

lemma rest_shift [simp]: "rest (shift P k T D h st) = rest st"
  by (simp add: rest_def)

lemma isAtEnd_shift [simp]: "isAtEnd (shift P k T D h st) = isAtEnd st"
  by (simp add: isAtEnd_def)

lemma peek_shift [simp]: "peek (shift P k T D h st) = peek st"
  by (simp add: peek_rest)

lemma peekNext_shift [simp]: "peekNext (shift P k T D h st) = peekNext st"
  by (simp add: peekNext_rest)

lemma advance_shift:
  "advance (shift P k T D h st) = (fst (advance st), shift P k T D h (snd (advance st)))"
  by (simp add: advance_rest)

lemma match_shift:
  "match e (shift P k T D h st) = (fst (match e st), shift P k T D h (snd (match e st)))"
  by (simp add: match_rest split: list.splits)

lemma addToken_shift:
  "addToken t l (shift P k T D h st) = shift P k T D h (addToken t l st)"
  by (simp add: addToken_def Let_def shift_def substring_shift shift_line_def)

lemma error_shift:
  "error (lineno (shift P k T D h st)) m (shift P k T D h st) =
   shift P k T D h (error (lineno st) m st)"
  by (simp add: error_def report_def shift_def shift_at_line_def)

lemma operator_shift:
  "operator a b (shift P k T D h st) = shift P k T D h (operator a b st)"
  by (simp add: operator_def match_shift addToken_shift case_prod_beta)

lemma comment_loop_shift:
  "comment_loop (shift P k T D h st) = shift P k T D h (comment_loop st)"
  by (simp add: comment_loop_closed)

lemma string_shift:
  "string (shift P k T D h st) = shift P k T D h (string st)"
proof -
  let ?n = "length (takeWhile (\<lambda>c. c \<noteq> CHR 0x22) (rest st))"
  let ?l = "length (filter (\<lambda>c. c = CHR 0x0A) (takeWhile (\<lambda>c. c \<noteq> CHR 0x22) (rest st)))"
  let ?s1 = "st\<lparr>current := current st + ?n, lineno := lineno st + ?l\<rparr>"
  have l: "string_loop (shift P k T D h st) = shift P k T D h ?s1"
    by (simp add: string_loop_closed)
  have s: "string_loop st = ?s1" by (simp add: string_loop_closed)
  show ?thesis
  proof (cases "isAtEnd ?s1")
    case True
    then show ?thesis
      using error_shift[of P k T D h ?s1 "''Unterminated string.''"]
      by (simp add: string_def l s Let_def)
  next
    case False
    have a: "snd (advance (shift P k T D h ?s1)) = shift P k T D h (snd (advance ?s1))"
      by (simp add: advance_shift)
    have sub: "substring (P @ source st) (Suc (length P + start st)) (length P + (current st + ?n)) =
        substring (source st) (Suc (start st)) (current st + ?n)"
      using substring_shift[of P "source st" "Suc (start st)" "current st + ?n"] by simp
    show ?thesis
      using False
      by (simp add: string_def l s Let_def a addToken_shift)
         (simp add: advance_def sub)
  qed
qed


lemma number_shift:
  "number (shift P k T D h st) = shift P k T D h (number st)"
proof -
  let ?n = "current st + length (number_lexeme (rest st))"
  have sub: "substring (P @ source st) (length P + start st) (length P + ?n) =
      substring (source st) (start st) ?n"
    by (rule substring_shift)
  have u: "(shift P k T D h st)\<lparr>current := length P + ?n\<rparr> = shift P k T D h (st\<lparr>current := ?n\<rparr>)"
    by (rule shift_updates)
  show ?thesis
    unfolding number_closed Let_def rest_shift shift_fields
    by (simp only: add.assoc sub u addToken_shift)
qed

lemma identifier_shift:
  "identifier' (shift P k T D h st) = shift P k T D h (identifier' st)"
proof -
  let ?n = "current st + length (takeWhile (\<lambda>c. isAlphaNumeric [c]) (rest st))"
  have sub: "substring (P @ source st) (length P + start st) (length P + ?n) =
      substring (source st) (start st) ?n"
    by (rule substring_shift)
  have u: "(shift P k T D h st)\<lparr>current := length P + ?n\<rparr> = shift P k T D h (st\<lparr>current := ?n\<rparr>)"
    by (rule shift_updates)
  show ?thesis
    unfolding identifier_closed Let_def rest_shift shift_fields
    by (simp only: add.assoc sub u addToken_shift)
qed

lemma scanToken_shift:
  "scanToken (shift P k T D h st0) = shift P k T D h (scanToken st0)"
proof -
  obtain c st where a: "advance st0 = (c, st)" by (cases "advance st0")
  then have a': "advance (shift P k T D h st0) = (c, shift P k T D h st)"
    by (simp add: advance_shift)
  define Q where "Q x y \<longleftrightarrow> x = shift P k T D h y" for x y
  have leaves:
    "Q (addToken t l (shift P k T D h st)) (addToken t l st)"
    "Q (operator x y (shift P k T D h st)) (operator x y st)"
    "Q (shift P k T D h st) st"
    "Q ((shift P k T D h st)\<lparr>lineno := Suc (lineno st + k)\<rparr>) (st\<lparr>lineno := Suc (lineno st)\<rparr>)"
    "Q (string (shift P k T D h st)) (string st)"
    "Q (number (shift P k T D h st)) (number st)"
    "Q (identifier' (shift P k T D h st)) (identifier' st)"
    "Q (error (lineno st + k) m (shift P k T D h st)) (error (lineno st) m st)"
    for t l x y m
    using error_shift[of P k T D h st m]
      shift_updates(3)[where P=P and k=k and T=T and D=D and h=h and st=st and l="Suc (lineno st)"]
    by (simp_all add: Q_def addToken_shift operator_shift string_shift number_shift
        identifier_shift)
  have slash: "Q (case match ''/'' (shift P k T D h st) of (m, st') \<Rightarrow>
             if m then comment_loop st' else addToken (TT SLASH) None st')
          (case match ''/'' st of (m, st') \<Rightarrow>
             if m then comment_loop st' else addToken (TT SLASH) None st')"
    by (simp add: Q_def match_shift case_prod_beta comment_loop_shift addToken_shift)
  have "Q (scanToken (shift P k T D h st0)) (scanToken st0)"
    unfolding scanToken_def a a' prod.case
    by (simp add: leaves slash)
  then show ?thesis by (simp add: Q_def)
qed

lemma scan_loop_shift:
  "scan_loop (shift P k T D h st) = shift P k T D h (scan_loop st)"
proof (induction st rule: scan_loop.induct)
  case (1 st)
  show ?case
  proof (cases "isAtEnd st")
    case True
    then show ?thesis
      by (simp add: scan_loop.simps[of st] scan_loop.simps[of "shift P k T D h st"])
  next
    case False
    have "scan_loop (shift P k T D h st) =
        scan_loop (scanToken ((shift P k T D h st)\<lparr>start := current (shift P k T D h st)\<rparr>))"
      using False by (subst scan_loop.simps) simp
    also have "(shift P k T D h st)\<lparr>start := current (shift P k T D h st)\<rparr> =
        shift P k T D h (st\<lparr>start := current st\<rparr>)"
      by (simp add: shift_def)
    finally have "scan_loop (shift P k T D h st) =
        scan_loop (scanToken (shift P k T D h (st\<lparr>start := current st\<rparr>)))" .
    also have "\<dots> = scan_loop (shift P k T D h (scanToken (st\<lparr>start := current st\<rparr>)))"
      by (simp only: scanToken_shift)
    also have "\<dots> = shift P k T D h (scan_loop (scanToken (st\<lparr>start := current st\<rparr>)))"
      using False by (rule 1)
    also have "\<dots> = shift P k T D h (scan_loop st)"
      using False by (simp add: scan_loop.simps[of st])
    finally show ?thesis .
  qed
qed

subsection \<open>Scanning a text that another follows\<close>

text \<open>
  \<open>followed_by R st\<close> is the state \<open>st\<close> of a scan of a text, seen as a state of the scan of
  that text with \<open>R\<close> after it.
\<close>

definition followed_by :: "string \<Rightarrow> scan_state \<Rightarrow> scan_state" where
  "followed_by R st = st\<lparr>source := source st @ R\<rparr>"

lemma followed_by_fields [simp]:
  "source (followed_by R st) = source st @ R" "tokens (followed_by R st) = tokens st"
  "start (followed_by R st) = start st" "current (followed_by R st) = current st"
  "lineno (followed_by R st) = lineno st" "had_error (followed_by R st) = had_error st"
  "console_error (followed_by R st) = console_error st"
  by (simp_all add: followed_by_def)

lemma followed_by_updates:
  "(followed_by R st)\<lparr>current := n\<rparr> = followed_by R (st\<lparr>current := n\<rparr>)"
  "(followed_by R st)\<lparr>start := n\<rparr> = followed_by R (st\<lparr>start := n\<rparr>)"
  "(followed_by R st)\<lparr>lineno := l\<rparr> = followed_by R (st\<lparr>lineno := l\<rparr>)"
  "(followed_by R st)\<lparr>tokens := ts\<rparr> = followed_by R (st\<lparr>tokens := ts\<rparr>)"
  by (simp_all add: followed_by_def)

lemma rest_followed_by: "current st \<le> length (source st) \<Longrightarrow> rest (followed_by R st) = rest st @ R"
  by (simp add: rest_def)

lemma substring_followed_by:
  "a \<le> length s \<Longrightarrow> b \<le> length s \<Longrightarrow> substring (s @ R) a b = substring s a b"
  by (simp add: substring_def Let_def min_def max_def)

lemma addToken_followed_by:
  "start st \<le> length (source st) \<Longrightarrow> current st \<le> length (source st)
     \<Longrightarrow> addToken t l (followed_by R st) = followed_by R (addToken t l st)"
  by (simp add: addToken_def Let_def substring_followed_by followed_by_def)

lemma error_followed_by: "error l m (followed_by R st) = followed_by R (error l m st)"
  by (simp add: error_def report_def followed_by_def)

lemma advance_followed_by:
  "\<not> isAtEnd st \<Longrightarrow> advance (followed_by R st) = (fst (advance st), followed_by R (snd (advance st)))"
  by (simp add: advance_def isAtEnd_def charAt_def nth_append followed_by_def)

lemma match_followed_by:
  assumes "current st \<le> length (source st)" "e \<noteq> [CHR 0x0A]"
  shows "match e (followed_by (CHR 0x0A # B) st) =
         (fst (match e st), followed_by (CHR 0x0A # B) (snd (match e st)))"
  using assms
  by (cases "rest st") (auto simp: match_rest rest_followed_by followed_by_updates)

lemma operator_followed_by:
  assumes "start st \<le> current st" "current st \<le> length (source st)"
  shows "operator a b (followed_by (CHR 0x0A # B) st) = followed_by (CHR 0x0A # B) (operator a b st)"
proof -
  have "start (snd (match ''='' st)) \<le> length (source (snd (match ''='' st)))"
       "current (snd (match ''='' st)) \<le> length (source (snd (match ''='' st)))"
    using assms match_bound[OF assms(2), of "''=''"] by simp_all
  then show ?thesis
    using assms by (simp add: operator_def match_followed_by case_prod_beta addToken_followed_by)
qed

lemma takeWhile_append_stop: "\<not> P y \<Longrightarrow> takeWhile P (xs @ y # ys) = takeWhile P xs"
  by (induction xs) simp_all

lemma dropWhile_append_stop: "\<not> P y \<Longrightarrow> dropWhile P (xs @ y # ys) = dropWhile P xs @ y # ys"
  by (induction xs) simp_all

lemma comment_loop_followed_by:
  assumes "current st \<le> length (source st)"
  shows "comment_loop (followed_by (CHR 0x0A # B) st) = followed_by (CHR 0x0A # B) (comment_loop st)"
  using assms
  by (simp add: comment_loop_closed rest_followed_by takeWhile_append_stop followed_by_updates)

lemma number_lexeme_append: "number_lexeme (xs @ CHR 0x0A # B) = number_lexeme xs"
proof -
  have nd: "\<not> is_decimal_digit (CHR 0x0A)" by (simp add: is_decimal_digit_def)
  have tw: "takeWhile is_decimal_digit (xs @ CHR 0x0A # B) = takeWhile is_decimal_digit xs"
    using nd by (rule takeWhile_append_stop)
  have dw: "dropWhile is_decimal_digit (xs @ CHR 0x0A # B) =
      dropWhile is_decimal_digit xs @ CHR 0x0A # B"
    using nd by (rule dropWhile_append_stop)
  show ?thesis
  proof (cases "dropWhile is_decimal_digit xs")
    case Nil
    show ?thesis
      unfolding number_lexeme_def Let_def tw dw Nil
      by (cases B) (simp_all del: takeWhile.simps dropWhile.simps)
  next
    case c: (Cons c r)
    show ?thesis
    proof (cases r)
      case Nil
      show ?thesis
        unfolding number_lexeme_def Let_def tw dw c Nil
        using nd by (simp del: takeWhile.simps dropWhile.simps)
    next
      case (Cons d r')
      have "takeWhile is_decimal_digit (d # r' @ CHR 0x0A # B) =
          takeWhile is_decimal_digit (d # r')"
        using takeWhile_append_stop[of is_decimal_digit "CHR 0x0A" "d # r'" B] nd by simp
      then show ?thesis
        unfolding number_lexeme_def Let_def tw dw c Cons
        by (simp del: takeWhile.simps dropWhile.simps)
    qed
  qed
qed

lemma number_followed_by:
  assumes "start st \<le> current st" "current st \<le> length (source st)"
  shows "number (followed_by (CHR 0x0A # B) st) = followed_by (CHR 0x0A # B) (number st)"
proof -
  let ?n = "current st + length (number_lexeme (rest st))"
  have n: "?n \<le> length (source st)"
    using number_lexeme_length[of "rest st"] rest_length[OF assms(2)] by simp
  have s: "start st \<le> length (source st)" using assms by simp
  have sub: "substring (source st @ CHR 0x0A # B) (start st) ?n =
      substring (source st) (start st) ?n"
    using s n by (rule substring_followed_by)
  have a: "addToken t l (followed_by (CHR 0x0A # B) (st\<lparr>current := ?n\<rparr>)) =
      followed_by (CHR 0x0A # B) (addToken t l (st\<lparr>current := ?n\<rparr>))" for t l
    using s n by (intro addToken_followed_by) simp_all
  show ?thesis
    unfolding number_closed Let_def rest_followed_by[OF assms(2)] number_lexeme_append
      followed_by_fields sub followed_by_updates a ..
qed

lemma isAlphaNumeric_newline: "\<not> isAlphaNumeric [CHR 0x0A]"
  by (simp add: isAlphaNumeric_def isAlpha_def isDigit_def)

lemma identifier_followed_by:
  assumes "start st \<le> current st" "current st \<le> length (source st)"
  shows "identifier' (followed_by (CHR 0x0A # B) st) = followed_by (CHR 0x0A # B) (identifier' st)"
proof -
  let ?n = "current st + length (takeWhile (\<lambda>c. isAlphaNumeric [c]) (rest st))"
  have n: "?n \<le> length (source st)" using assms(2) by (rule run_bound)
  have s: "start st \<le> length (source st)" using assms by simp
  have tw: "takeWhile (\<lambda>c. isAlphaNumeric [c]) (rest st @ CHR 0x0A # B) =
      takeWhile (\<lambda>c. isAlphaNumeric [c]) (rest st)"
    using isAlphaNumeric_newline by (rule takeWhile_append_stop)
  have sub: "substring (source st @ CHR 0x0A # B) (start st) ?n =
      substring (source st) (start st) ?n"
    using s n by (rule substring_followed_by)
  have a: "addToken t l (followed_by (CHR 0x0A # B) (st\<lparr>current := ?n\<rparr>)) =
      followed_by (CHR 0x0A # B) (addToken t l (st\<lparr>current := ?n\<rparr>))" for t l
    using s n by (intro addToken_followed_by) simp_all
  show ?thesis
    unfolding identifier_closed Let_def rest_followed_by[OF assms(2)] tw
      followed_by_fields sub followed_by_updates a ..
qed

lemma string_followed_by:
  assumes "start st < current st" "current st \<le> length (source st)"
    "CHR 0x22 \<in> set (rest st)"
  shows "string (followed_by R st) = followed_by R (string st)"
proof -
  from split_list_first[OF assms(3)] obtain body r where
    r: "rest st = body @ CHR 0x22 # r" and b: "CHR 0x22 \<notin> set body" by blast
  have r': "rest (followed_by R st) = body @ CHR 0x22 # (r @ R)"
    using rest_followed_by[OF assms(2), of R] r by simp
  let ?n = "current st + length body"
  have n: "?n + 1 \<le> length (source st)"
    using rest_length[OF assms(2)] r by simp
  have sub: "substring (source st @ R) (start st) (?n + 1) = substring (source st) (start st) (?n + 1)"
    "substring (source st @ R) (start st + 1) ?n = substring (source st) (start st + 1) ?n"
    using assms(1,2) n by (simp_all add: substring_followed_by)
  show ?thesis
    unfolding string_terminated[OF r b] string_terminated[OF r' b] Let_def followed_by_fields sub
    by (simp add: followed_by_def)
qed

subsection \<open>Scanning two texts with a newline between them\<close>

lemma scanToken_followed_by:
  assumes "start st0 \<le> current st0" "current st0 < length (source st0)"
    "\<And>r. rest st0 = CHR 0x22 # r \<Longrightarrow> CHR 0x22 \<in> set r"
  shows "scanToken (followed_by (CHR 0x0A # B) st0) = followed_by (CHR 0x0A # B) (scanToken st0)"
proof -
  let ?R = "CHR 0x0A # B"
  obtain c st where a: "advance st0 = (c, st)" by (cases "advance st0")
  have ne: "\<not> isAtEnd st0" using assms(2) by (simp add: isAtEnd_def)
  have a': "advance (followed_by ?R st0) = (c, followed_by ?R st)"
    using advance_followed_by[OF ne, of ?R] a by simp
  from ne obtain x r where r: "rest st0 = x # r" by (cases "rest st0") (auto simp: isAtEnd_rest)
  have c: "c = [x]" using a r by (simp add: advance_rest)
  have st: "st = snd (advance st0)" using a by simp
  have rs: "rest st = r" using r by (simp add: st rest_advance)
  have b: "start st < current st" "current st \<le> length (source st)"
    using assms(1,2) by (simp_all add: st advance_def)
  have b': "start st \<le> current st" "start st \<le> length (source st)" using b by simp_all
  have q: "CHR 0x22 \<in> set (rest st)" if "c = [CHR 0x22]"
    using that assms(3)[of r] r c rs by simp
  define Q where "Q x y \<longleftrightarrow> x = followed_by ?R y" for x y
  have leaves:
    "Q (addToken t l (followed_by ?R st)) (addToken t l st)"
    "Q (operator u v (followed_by ?R st)) (operator u v st)"
    "Q (followed_by ?R st) st"
    "Q ((followed_by ?R st)\<lparr>lineno := Suc (lineno st)\<rparr>) (st\<lparr>lineno := Suc (lineno st)\<rparr>)"
    "Q (number (followed_by ?R st)) (number st)"
    "Q (identifier' (followed_by ?R st)) (identifier' st)"
    "Q (error n m (followed_by ?R st)) (error n m st)"
    for t l u v n m
    using b b'
    by (simp_all add: Q_def addToken_followed_by operator_followed_by number_followed_by identifier_followed_by
        error_followed_by followed_by_updates)
  have str: "c = [CHR 0x22] \<Longrightarrow> Q (string (followed_by ?R st)) (string st)"
    using string_followed_by[OF b q] by (simp add: Q_def)
  have slash: "Q (case match ''/'' (followed_by ?R st) of (m, st') \<Rightarrow>
             if m then comment_loop st' else addToken (TT SLASH) None st')
          (case match ''/'' st of (m, st') \<Rightarrow>
             if m then comment_loop st' else addToken (TT SLASH) None st')"
  proof -
    let ?s1 = "snd (match ''/'' st)"
    have m: "match ''/'' (followed_by ?R st) = (fst (match ''/'' st), followed_by ?R ?s1)"
      using b(2) by (intro match_followed_by) simp_all
    have b1: "current ?s1 \<le> length (source ?s1)" "start ?s1 \<le> length (source ?s1)"
      using match_bound[OF b(2), of "''/''"] b' by simp_all
    show ?thesis
      unfolding Q_def m prod.case case_prod_beta
      using b1 by (simp add: comment_loop_followed_by addToken_followed_by)
  qed
  have "Q (scanToken (followed_by ?R st0)) (scanToken st0)"
    unfolding scanToken_def a a' prod.case followed_by_fields
    by (simp add: leaves str slash)
  then show ?thesis by (simp add: Q_def)
qed

lemma scan_loop_followed_by:
  assumes "current st \<le> length (source st)"
    "\<forall>d\<in>set (console_error (scan_loop st)). message d \<noteq> ''Unterminated string.''"
  shows "scan_loop (followed_by (CHR 0x0A # B) st) =
         scan_loop (followed_by (CHR 0x0A # B) (scan_loop st))"
  using assms
proof (induction st rule: scan_loop.induct)
  case (1 st)
  let ?R = "CHR 0x0A # B"
  show ?case
  proof (cases "isAtEnd st")
    case True
    then show ?thesis by (simp add: scan_loop.simps[of st])
  next
    case False
    let ?s0 = "st\<lparr>start := current st\<rparr>"
    have lt: "current ?s0 < length (source ?s0)" using False by (simp add: isAtEnd_def)
    have sl: "scan_loop st = scan_loop (scanToken ?s0)"
      using False by (simp add: scan_loop.simps[of st])
    have q: "CHR 0x22 \<in> set r" if r: "rest ?s0 = CHR 0x22 # r" for r
    proof (rule ccontr)
      assume n: "CHR 0x22 \<notin> set r"
      from r have "rest st = CHR 0x22 # r" by simp
      note u = scanToken_string_unterminated[OF this n]
      have "scan_loop (scanToken ?s0) = scanToken ?s0"
        by (rule scan_loop_end) (simp add: u)
      with sl have "console_error (scan_loop st) = console_error st @
         [\<lparr>at_line = lineno st + newlines r, location = [],
           message = ''Unterminated string.''\<rparr>]"
        by (simp add: u)
      with "1.prems"(2) show False by simp
    qed
    have "\<not> isAtEnd (followed_by ?R st)" using False by (simp add: isAtEnd_def)
    then have "scan_loop (followed_by ?R st) =
        scan_loop (scanToken ((followed_by ?R st)\<lparr>start := current (followed_by ?R st)\<rparr>))"
      by (subst scan_loop.simps) simp
    also have "(followed_by ?R st)\<lparr>start := current (followed_by ?R st)\<rparr> = followed_by ?R ?s0"
      by (simp add: followed_by_def)
    also have "scanToken (followed_by ?R ?s0) = followed_by ?R (scanToken ?s0)"
      using lt q by (intro scanToken_followed_by) simp_all
    also have "scan_loop (followed_by ?R (scanToken ?s0)) =
        scan_loop (followed_by ?R (scan_loop (scanToken ?s0)))"
      using False scanToken_bound[OF lt] "1.prems"(2) by (intro 1) (simp_all add: sl)
    finally show ?thesis by (simp add: sl)
  qed
qed

lemma scan_loop_start:
  "tokens (scan_loop (st\<lparr>start := v\<rparr>)) = tokens (scan_loop st)"
  "lineno (scan_loop (st\<lparr>start := v\<rparr>)) = lineno (scan_loop st)"
  by (simp_all add: scan_loop.simps[of st] scan_loop.simps[of "st\<lparr>start := v\<rparr>"] isAtEnd_def)

lemma scan_loop_concat:
  assumes "\<forall>d\<in>set (console_error (scanTokens A)). message d \<noteq> ''Unterminated string.''"
  shows "tokens (scan_loop (new_scanner (A @ CHR 0x0A # B))) =
           tokens (scan_loop (new_scanner A)) @
           map (shift_line (Suc (newlines A))) (tokens (scan_loop (new_scanner B)))"
    and "lineno (scan_loop (new_scanner (A @ CHR 0x0A # B))) =
           lineno (scan_loop (new_scanner B)) + Suc (newlines A)"
proof -
  let ?R = "CHR 0x0A # B"
  let ?a = "scan_loop (new_scanner A)"
  let ?k = "Suc (newlines A)"
  let ?sh = "shift (A @ [CHR 0x0A]) ?k (tokens ?a) (console_error ?a) (had_error ?a)"
  have src: "source ?a = A" using reaches_source[OF reaches_final, of "new_scanner A"] by simp
  have cur: "current ?a = length A" by (rule scan_loop_reads_all)
  have lin: "lineno ?a = ?k" using scanTokens_lineno[of A] by (simp add: scanTokens_def)
  have n: "new_scanner (A @ ?R) = followed_by ?R (new_scanner A)"
    by (simp add: new_scanner_def followed_by_def)
  have h: "\<forall>d\<in>set (console_error ?a). message d \<noteq> ''Unterminated string.''"
    using assms by (simp add: scanTokens_def)
  have "scan_loop (new_scanner (A @ ?R)) = scan_loop (followed_by ?R ?a)"
    unfolding n by (rule scan_loop_followed_by) (simp_all add: h)
  also have "\<dots> = scan_loop (scanToken ((followed_by ?R ?a)\<lparr>start := current (followed_by ?R ?a)\<rparr>))"
    by (rule scan_loop_step) (simp add: src cur)
  also have "scanToken ((followed_by ?R ?a)\<lparr>start := current (followed_by ?R ?a)\<rparr>) =
      (?sh (new_scanner B))\<lparr>start := length A\<rparr>"
  proof -
    have "rest (followed_by ?R ?a) = CHR 0x0A # B" by (simp add: rest_def src cur)
    then have "scanToken ((followed_by ?R ?a)\<lparr>start := current (followed_by ?R ?a)\<rparr>) =
        (followed_by ?R ?a)\<lparr>start := current (followed_by ?R ?a),
          current := current (followed_by ?R ?a) + 1, lineno := lineno (followed_by ?R ?a) + 1\<rparr>"
      by (rule scanToken_newline)
    also have "\<dots> = (?sh (new_scanner B))\<lparr>start := length A\<rparr>"
      by (rule scan_state.equality) (simp_all add: src cur lin shift_def)
    finally show ?thesis .
  qed
  finally have e: "scan_loop (new_scanner (A @ ?R)) =
      scan_loop ((?sh (new_scanner B))\<lparr>start := length A\<rparr>)" .
  show "tokens (scan_loop (new_scanner (A @ CHR 0x0A # B))) =
           tokens ?a @ map (shift_line ?k) (tokens (scan_loop (new_scanner B)))"
    unfolding e scan_loop_start scan_loop_shift by simp
  show "lineno (scan_loop (new_scanner (A @ CHR 0x0A # B))) =
           lineno (scan_loop (new_scanner B)) + ?k"
    unfolding e scan_loop_start scan_loop_shift by simp
qed


lemma two_texts_scans:
  "console_error (scanTokens [CHR ''('', CHR 0x0A, CHR ''a'']) = []"
  "tokens (scanTokens [CHR ''('', CHR 0x0A, CHR ''a'']) =
     [\<lparr>type = TT LEFT_PAREN, lexeme = ''('', literal = EmptyObject, line = 1\<rparr>,
      \<lparr>type = TT IDENTIFIER, lexeme = ''a'', literal = EmptyObject, line = 2\<rparr>,
      \<lparr>type = TT EOF, lexeme = [], literal = EmptyObject, line = 2\<rparr>]"
  "tokens (scanTokens [CHR 0x0A, CHR '')'']) =
     [\<lparr>type = TT RIGHT_PAREN, lexeme = '')'', literal = EmptyObject, line = 2\<rparr>,
      \<lparr>type = TT EOF, lexeme = [], literal = EmptyObject, line = 2\<rparr>]"
  by code_simp+



section \<open>The driver\<close>

text \<open>
  How the process ends: it runs to completion (exit status 0), it calls \<^verbatim>\<open>exit\<close> with a
  status, or a promise is rejected with nothing to catch it (the file cannot be read,
  \<^verbatim>\<open>argv[1]\<close> is \<^verbatim>\<open>undefined\<close>).
\<close>

datatype outcome = Completed | Exit nat | Uncaught

text \<open>
  What the process has done: the strings written to \<^verbatim>\<open>stdout\<close>, the errors written with
  \<^verbatim>\<open>console.error\<close>, the token list of every call of \<^verbatim>\<open>run\<close>, the global flag
  \<^verbatim>\<open>had_error\<close>, and how it ended.
\<close>

record process =
  stdout :: "string list"
  stderr :: "diagnostic list"
  scanned :: "Token list list"
  had_error_global :: bool
  ended :: outcome

definition started :: process where
  "started = \<lparr>stdout = [], stderr = [], scanned = [], had_error_global = False,
              ended = Completed\<rparr>"

text \<open>
  \<^verbatim>\<open>run\<close> makes a scanner for the source and scans it. \<^verbatim>\<open>report\<close> only ever sets the
  flag, so the flag after the scan is the flag before it or the flag of the scan.
\<close>

definition run :: "string \<Rightarrow> process \<Rightarrow> process" where
  "run src p =
     (let s = scanTokens src
      in p\<lparr>scanned := scanned p @ [tokens s], stderr := stderr p @ console_error s,
           had_error_global := (had_error_global p \<or> had_error s)\<rparr>)"

text \<open>The files are a map from paths to contents; \<open>None\<close> is a path that cannot be read.\<close>

definition run_file :: "(string \<rightharpoonup> string) \<Rightarrow> string option \<Rightarrow> process \<Rightarrow> process" where
  "run_file files input_file p =
     (case input_file of
        None \<Rightarrow> p\<lparr>ended := Uncaught\<rparr>
      | Some path \<Rightarrow>
          (case files path of
             None \<Rightarrow> p\<lparr>ended := Uncaught\<rparr>
           | Some text \<Rightarrow>
               (let p' = run text p
                in if had_error_global p' then p'\<lparr>ended := Exit 65\<rparr> else p')))"

text \<open>
  \<^verbatim>\<open>run_prompt\<close> over the lines of the standard input: the prompt is written before the
  first line and after each line read; an empty line ends the session.
\<close>

fun prompt_loop :: "string list \<Rightarrow> process \<Rightarrow> process" where
  "prompt_loop [] p = p"
| "prompt_loop (l # ls) p =
     (let p1 = p\<lparr>stdout := stdout p @ [''> '']\<rparr>
      in if length l = 0 then p1
         else prompt_loop ls ((run l p1)\<lparr>had_error_global := False\<rparr>))"

definition run_prompt :: "string list \<Rightarrow> process \<Rightarrow> process" where
  "run_prompt input p = prompt_loop input (p\<lparr>stdout := stdout p @ [''> '']\<rparr>)"

text \<open>\<^verbatim>\<open>argv[i]\<close>: \<^verbatim>\<open>undefined\<close> beyond the end of the array.\<close>

definition element :: "'a list \<Rightarrow> nat \<Rightarrow> 'a option" where
  "element xs i = (if i < length xs then Some (xs ! i) else None)"

definition main :: "string list \<Rightarrow> (string \<rightharpoonup> string) \<Rightarrow> string list \<Rightarrow> process" where
  "main argv files input =
     (if length argv > 2
      then started\<lparr>stdout := [''Usage: gravlax [script]''], ended := Exit 64\<rparr>
      else if length argv = 1 then run_file files (element argv 1) started
      else run_prompt input started)"

text \<open>
  \<^verbatim>\<open>process.argv\<close> of a script started as \<^verbatim>\<open>bun index.ts a1 ... an\<close>: the path of the
  runtime, the path of the script, then the arguments.
\<close>

definition process_argv :: "string \<Rightarrow> string \<Rightarrow> string list \<Rightarrow> string list" where
  "process_argv runtime script args = runtime # script # args"

lemma reaches_had_error:
  assumes "reaches st0 st" "had_error st0 \<longleftrightarrow> console_error st0 \<noteq> []"
  shows "had_error st \<longleftrightarrow> console_error st \<noteq> []"
  using assms
proof (induction rule: reaches.induct)
  case (here st)
  then show ?case by simp
next
  case (iteration st st')
  from reported_scanToken[of "st'\<lparr>start := current st'\<rparr>"] iteration show ?case
    by (auto simp: reported_def)
qed

lemma scanTokens_had_error: "had_error (scanTokens src) \<longleftrightarrow> console_error (scanTokens src) \<noteq> []"
  using reaches_had_error[OF reaches_final, of "new_scanner src"] by (simp add: scanTokens_def)

text \<open>
  \<^verbatim>\<open>run_file\<close> itself, on a readable file: one scan, and exit status 65 exactly when the
  scan reported an error.
\<close>

lemma run_file_status:
  assumes "files path = Some contents"
  shows "scanned (run_file files (Some path) started) = [tokens (scanTokens contents)]"
    "ended (run_file files (Some path) started) =
       (if console_error (scanTokens contents) \<noteq> [] then Exit 65 else Completed)"
  using assms scanTokens_had_error[of contents]
  by (simp_all add: run_file_def run_def started_def Let_def)

text \<open>
  C10 with one path argument, or more: \<^verbatim>\<open>process.argv\<close> then has three elements or more,
  the first test of \<^verbatim>\<open>main\<close> holds, and the process writes the usage message and exits
  with status 64; no file is read and nothing is scanned. With no path argument
  \<^verbatim>\<open>process.argv\<close> has two elements and \<^verbatim>\<open>main\<close> runs the prompt: no command line
  reaches \<^verbatim>\<open>run_file\<close>.
\<close>

theorem path_argument_only_prints_usage:
  "main (process_argv runtime script (path # others)) files input =
     \<lparr>stdout = [''Usage: gravlax [script]''], stderr = [], scanned = [],
      had_error_global = False, ended = Exit 64\<rparr> \<and>
   main (process_argv runtime script []) files input = run_prompt input started"
  by (simp add: main_def process_argv_def started_def)

end
